theory Spec2Isabelle
  imports Main "HOL-Library.Word"
begin

unbundle bit_operations_syntax

section \<open>Bytes, code points and the standard-library primitives the splitters call\<close>

type_synonym byte = "8 word"
type_synonym rune = nat

text \<open>
  The splitters call \<^verbatim>\<open>utf8.DecodeRune\<close>, \<^verbatim>\<open>unicode.IsSpace\<close>,
  \<^verbatim>\<open>unicode.IsLetter\<close> and \<^verbatim>\<open>unicode.IsNumber\<close> of the Go standard library.
  \<^verbatim>\<open>DecodeRune\<close> and \<^verbatim>\<open>IsSpace\<close> are small and are written out below as the
  library defines them. The letter and number categories are large tables that change with
  the Unicode version; they are taken as parameters.
\<close>

definition RuneError :: rune where
  "RuneError = 0xFFFD"

definition replacementChar :: rune where
  "replacementChar = 0xfffd"

text \<open>The array \<^verbatim>\<open>first\<close> of package utf8: information about the first byte of an encoding.\<close>

definition first :: "byte \<Rightarrow> byte" where
  "first p0 =
     (if p0 < 0x80 then 0xF0
      else if p0 < 0xC2 then 0xF1
      else if p0 < 0xE0 then 0x02
      else if p0 = 0xE0 then 0x13
      else if p0 < 0xED then 0x03
      else if p0 = 0xED then 0x23
      else if p0 < 0xF0 then 0x03
      else if p0 = 0xF0 then 0x34
      else if p0 < 0xF4 then 0x04
      else if p0 = 0xF4 then 0x44
      else 0xF1)"

text \<open>The array \<^verbatim>\<open>acceptRanges\<close> of package utf8: the range allowed for the second byte.\<close>

definition acceptRanges :: "nat \<Rightarrow> byte \<times> byte" where
  "acceptRanges k =
     (if k = 0 then (0x80, 0xBF)
      else if k = 1 then (0xA0, 0xBF)
      else if k = 2 then (0x80, 0x9F)
      else if k = 3 then (0x90, 0xBF)
      else if k = 4 then (0x80, 0x8F)
      else (0, 0))"

text \<open>
  \<^verbatim>\<open>utf8.DecodeRune(p)\<close>: the first code point of \<open>p\<close> and its width in bytes;
  \<open>(RuneError, 0)\<close> on empty input and \<open>(RuneError, 1)\<close> on an invalid encoding.
\<close>

definition DecodeRune :: "byte list \<Rightarrow> rune \<times> nat" where
  "DecodeRune p =
     (let n = length p in
      if n < 1 then (RuneError, 0)
      else
        let p0 = p ! 0; x = first p0 in
        if x \<ge> 0xF0 then ((if x = 0xF1 then RuneError else unat p0), 1)
        else
          let sz = unat (x AND 7); (lo, hi) = acceptRanges (unat (drop_bit 4 x)) in
          if n < sz then (RuneError, 1)
          else
            let b1 = p ! 1 in
            if b1 < lo \<or> hi < b1 then (RuneError, 1)
            else if sz \<le> 2 then (push_bit 6 (unat (p0 AND 0x1F)) OR unat (b1 AND 0x3F), 2)
            else
              let b2 = p ! 2 in
              if b2 < 0x80 \<or> 0xBF < b2 then (RuneError, 1)
              else if sz \<le> 3 then
                (push_bit 12 (unat (p0 AND 0x0F)) OR push_bit 6 (unat (b1 AND 0x3F))
                   OR unat (b2 AND 0x3F), 3)
              else
                let b3 = p ! 3 in
                if b3 < 0x80 \<or> 0xBF < b3 then (RuneError, 1)
                else
                  (push_bit 18 (unat (p0 AND 0x07)) OR push_bit 12 (unat (b1 AND 0x3F))
                     OR push_bit 6 (unat (b2 AND 0x3F)) OR unat (b3 AND 0x3F), 4))"

text \<open>
  \<^verbatim>\<open>unicode.IsSpace\<close>: the Latin-1 cases of the function and, above Latin-1, the
  \<^verbatim>\<open>White_Space\<close> range table.
\<close>

definition IsSpace :: "rune \<Rightarrow> bool" where
  "IsSpace r =
     (if r \<le> 0xFF then
        r = 0x09 \<or> r = 0x0A \<or> r = 0x0B \<or> r = 0x0C \<or> r = 0x0D \<or> r = 0x20
          \<or> r = 0x85 \<or> r = 0xA0
      else
        r = 0x1680 \<or> (0x2000 \<le> r \<and> r \<le> 0x200A) \<or> r = 0x2028 \<or> r = 0x2029
          \<or> r = 0x202F \<or> r = 0x205F \<or> r = 0x3000)"

text \<open>The two category predicates that stay parameters of every splitter function.\<close>

record unicode =
  IsLetter :: "rune \<Rightarrow> bool"
  IsNumber :: "rune \<Rightarrow> bool"

section \<open>The pre-tokenizers\<close>

subsection \<open>The cursor shared by both \<^verbatim>\<open>getMatchLength\<close> functions\<close>

text \<open>
  Both functions keep three local variables: \<open>c\<close>, the current code point, \<open>pos\<close>, its
  offset, and \<open>next\<close>, the offset of the code point after it. The closure
  \<^verbatim>\<open>consume\<close> advances all three.
\<close>

record cursor =
  cur_pos :: nat
  cur_next :: nat
  cur_c :: rune

definition cursor0 :: cursor where
  "cursor0 = \<lparr>cur_pos = 0, cur_next = 0, cur_c = 0\<rparr>"

definition consume :: "byte list \<Rightarrow> cursor \<Rightarrow> cursor" where
  "consume input st =
     (let p = cur_next st;
          (r, size) = DecodeRune (drop p input);
          r' = (if r = RuneError then replacementChar else r)
      in \<lparr>cur_pos = p, cur_next = p + size, cur_c = r'\<rparr>)"

lemma first_sz: "first p0 \<ge> 0xF0 \<or> 2 \<le> unat (first p0 AND 7)"
  by (simp add: first_def)

lemma DecodeRune_Nil: "DecodeRune [] = (RuneError, 0)"
  by (simp add: DecodeRune_def)

lemma DecodeRune_size:
  assumes "p \<noteq> []"
  shows "1 \<le> snd (DecodeRune p) \<and> snd (DecodeRune p) \<le> length p"
proof -
  have n: "1 \<le> length p" using assms by (cases p) auto
  show ?thesis
    using first_sz[of "p ! 0"] n
    by (auto simp: DecodeRune_def Let_def split: prod.splits if_splits)
qed

lemma consume_pos [simp]: "cur_pos (consume input st) = cur_next st"
  by (simp add: consume_def Let_def split: prod.splits)

lemma consume_next:
  "cur_next (consume input st) = cur_next st + snd (DecodeRune (drop (cur_next st) input))"
  by (simp add: consume_def Let_def split: prod.splits)

lemma consume_next_less:
  "cur_next st < length input \<Longrightarrow> cur_next st < cur_next (consume input st)"
  using DecodeRune_size[of "drop (cur_next st) input"] by (simp add: consume_next)

lemma consume_next_le: "cur_next (consume input st) \<le> max (cur_next st) (length input)"
proof (cases "cur_next st < length input")
  case True
  then have ne: "drop (cur_next st) input \<noteq> []" by simp
  have "snd (DecodeRune (drop (cur_next st) input)) \<le> length input - cur_next st"
    using DecodeRune_size[OF ne] by simp
  with True have "cur_next st + snd (DecodeRune (drop (cur_next st) input)) \<le> length input"
    by arith
  then show ?thesis by (simp add: consume_next)
next
  case False
  then show ?thesis by (simp add: consume_next DecodeRune_Nil)
qed

text \<open>
  The loop \<^verbatim>\<open>for pos < cc { consume(); if !P(c) { break } }\<close>, which occurs with
  three different tests \<open>P\<close>.
\<close>

function consume_run :: "(rune \<Rightarrow> bool) \<Rightarrow> byte list \<Rightarrow> cursor \<Rightarrow> cursor" where
  "consume_run P input st =
     (if cur_pos st < length input then
        (let st' = consume input st in
         if \<not> P (cur_c st') then st' else consume_run P input st')
      else st)"
  by pat_completeness auto
termination
proof (relation "measure (\<lambda>(P, input, st).
         (length input - cur_next st) + (if cur_pos st < length input then 1 else 0))")
  show "wf (measure (\<lambda>(P, input, st).
         (length input - cur_next st) + (if cur_pos st < length input then 1 else 0)))"
    by simp
next
  fix P :: "rune \<Rightarrow> bool" and input :: "byte list" and st st' :: cursor
  assume a: "cur_pos st < length input" "st' = consume input st"
  show "((P, input, st'), (P, input, st)) \<in> measure (\<lambda>(P, input, st).
         (length input - cur_next st) + (if cur_pos st < length input then 1 else 0))"
  proof (cases "cur_next st < length input")
    case True
    then show ?thesis
      using consume_next_less[of st input] a by auto
  next
    case False
    then show ?thesis
      using a by (auto simp: consume_next DecodeRune_Nil)
  qed
qed

declare consume_run.simps [simp del]

text \<open>The loop \<^verbatim>\<open>for pos < cc && P(c) { consume() }\<close>.\<close>

function consume_while :: "(rune \<Rightarrow> bool) \<Rightarrow> byte list \<Rightarrow> cursor \<Rightarrow> cursor" where
  "consume_while P input st =
     (if cur_pos st < length input \<and> P (cur_c st) then consume_while P input (consume input st)
      else st)"
  by pat_completeness auto
termination
proof (relation "measure (\<lambda>(P, input, st).
         (length input - cur_next st) + (if cur_pos st < length input then 1 else 0))")
  show "wf (measure (\<lambda>(P, input, st).
         (length input - cur_next st) + (if cur_pos st < length input then 1 else 0)))"
    by simp
next
  fix P :: "rune \<Rightarrow> bool" and input :: "byte list" and st :: cursor
  assume a: "cur_pos st < length input \<and> P (cur_c st)"
  show "((P, input, consume input st), (P, input, st)) \<in> measure (\<lambda>(P, input, st).
         (length input - cur_next st) + (if cur_pos st < length input then 1 else 0))"
  proof (cases "cur_next st < length input")
    case True
    then show ?thesis
      using consume_next_less[of st input] a by auto
  next
    case False
    then show ?thesis
      using a by (auto simp: consume_next DecodeRune_Nil)
  qed
qed

declare consume_while.simps [simp del]

text \<open>
  The number loop of the CL100K splitter:
  \<^verbatim>\<open>for pos < cc && count < 3 { consume(); count++; if !unicode.IsNumber(c) { break } }\<close>.
\<close>

function consume_number :: "unicode \<Rightarrow> byte list \<Rightarrow> cursor \<Rightarrow> nat \<Rightarrow> cursor" where
  "consume_number U input st count =
     (if cur_pos st < length input \<and> count < 3 then
        (let st' = consume input st; count' = count + 1 in
         if \<not> IsNumber U (cur_c st') then st' else consume_number U input st' count')
      else st)"
  by pat_completeness auto
termination
  by (relation "measure (\<lambda>(U, input, st, count). 3 - count)") auto

declare consume_number.simps [simp del]

subsection \<open>The GPT2 splitter (r50k\_base, p50k\_base, p50k\_edit)\<close>

text \<open>
  The contraction switch at the head of \<^verbatim>\<open>getMatchLength\<close>: \<open>Some n\<close> is
  \<^verbatim>\<open>return n\<close>, \<open>None\<close> is leaving the \<^verbatim>\<open>if\<close> without returning.
  The byte values are \<open>'\<close> = 0x27, \<open>s t m d\<close> = 0x73 0x74 0x6D 0x64,
  \<open>r v\<close> = 0x72 0x76, \<open>e\<close> = 0x65, \<open>l\<close> = 0x6C.
\<close>

definition gpt2_contraction :: "byte list \<Rightarrow> rune \<Rightarrow> nat option" where
  "gpt2_contraction input c =
     (let cc = length input in
      if c = 0x27 \<and> cc \<ge> 2 then
        (let b = input ! 1 in
         if b = 0x73 \<or> b = 0x74 \<or> b = 0x6D \<or> b = 0x64 then Some 2
         else if b = 0x72 \<or> b = 0x76 then
           (if cc > 2 \<and> input ! 2 = 0x65 then Some 3 else None)
         else if b = 0x6C then
           (if cc > 2 \<and> input ! 2 = 0x6C then Some 3 else None)
         else None)
      else None)"

definition gpt2_getMatchLength :: "unicode \<Rightarrow> byte list \<Rightarrow> nat" where
  "gpt2_getMatchLength U input =
     (let cc = length input;
          st0 = consume input cursor0
      in case gpt2_contraction input (cur_c st0) of
           Some n \<Rightarrow> n
         | None \<Rightarrow>
            (let st1 = (if cur_c st0 = 0x20 \<and> cc \<ge> 2 then consume input st0 else st0) in
             if IsLetter U (cur_c st1) then cur_pos (consume_run (IsLetter U) input st1)
             else if IsNumber U (cur_c st1) then cur_pos (consume_run (IsNumber U) input st1)
             else if \<not> IsSpace (cur_c st1) then
               cur_pos (consume_run
                 (\<lambda>c. \<not> (IsSpace c \<or> IsLetter U c \<or> IsNumber U c)) input st1)
             else
               (let st2 = consume_while IsSpace input st1 in
                if cur_pos st2 \<ge> 2 \<and> cur_pos st2 < cc \<and> \<not> IsSpace (cur_c st2)
                then cur_pos st2 - 1
                else cur_pos st2)))"

subsection \<open>The CL100K splitter (cl100k\_base)\<close>

text \<open>
  The same switch with both cases of every letter: \<open>S T M D\<close> = 0x53 0x54 0x4D 0x44,
  \<open>R V\<close> = 0x52 0x56, \<open>E\<close> = 0x45, \<open>L\<close> = 0x4C.
\<close>

definition cl100k_contraction :: "byte list \<Rightarrow> rune \<Rightarrow> nat option" where
  "cl100k_contraction input c =
     (let cc = length input in
      if c = 0x27 \<and> cc \<ge> 2 then
        (let b = input ! 1 in
         if b = 0x73 \<or> b = 0x74 \<or> b = 0x6D \<or> b = 0x64
            \<or> b = 0x53 \<or> b = 0x54 \<or> b = 0x4D \<or> b = 0x44 then Some 2
         else if b = 0x72 \<or> b = 0x76 \<or> b = 0x52 \<or> b = 0x56 then
           (if cc \<ge> 3 \<and> (input ! 2 = 0x65 \<or> input ! 2 = 0x45) then Some 3 else None)
         else if b = 0x6C \<or> b = 0x4C then
           (if cc \<ge> 3 \<and> (input ! 2 = 0x6C \<or> input ! 2 = 0x4C) then Some 3 else None)
         else None)
      else None)"

definition cl100k_getMatchLength :: "unicode \<Rightarrow> byte list \<Rightarrow> nat" where
  "cl100k_getMatchLength U input =
     (let cc = length input;
          st0 = consume input cursor0
      in case cl100k_contraction input (cur_c st0) of
           Some n \<Rightarrow> n
         | None \<Rightarrow>
            (let isLetter = IsLetter U (cur_c st0);
                 isNumber = IsNumber U (cur_c st0);
                 peek = (if cur_next st0 < cc then fst (DecodeRune (drop (cur_next st0) input))
                         else replacementChar)
             in
             if isLetter \<or> (cc \<ge> 2 \<and> \<not> isNumber \<and> cur_c st0 \<noteq> 0x0D \<and> cur_c st0 \<noteq> 0x0A
                              \<and> IsLetter U peek)
             then cur_pos (consume_run (IsLetter U) input st0)
             else if isNumber then cur_pos (consume_number U input st0 0)
             else
               (let st1 = (if cur_c st0 = 0x20 \<and> cc \<ge> 2 then consume input st0 else st0) in
                if \<not> IsSpace (cur_c st1) \<and> \<not> IsLetter U (cur_c st1) \<and> \<not> IsNumber U (cur_c st1)
                then
                  (let st2 = consume_run
                               (\<lambda>c. \<not> (IsSpace c \<or> IsLetter U c \<or> IsNumber U c)) input st1;
                       st3 = consume_while (\<lambda>c. c = 0x0D \<or> c = 0x0A) input st2
                   in cur_pos st3)
                else
                  (let st2 = consume_while IsSpace input st1 in
                   if cur_pos st2 \<ge> 2 \<and> cur_pos st2 < cc \<and> \<not> IsSpace (cur_c st2)
                   then cur_pos st2 - 1
                   else cur_pos st2))))"

subsection \<open>The driver loop\<close>

text \<open>
  \<^verbatim>\<open>GPT2Splitter\<close> and \<^verbatim>\<open>cl100KBaseSplitter\<close> have the same body; only the
  \<^verbatim>\<open>getMatchLength\<close> they call differs. Nothing in the loop itself bounds the number
  of iterations, so it is a partial function: \<open>None\<close> is a loop that never returns. A
  slice expression \<^verbatim>\<open>input[pos:pos+matchLength]\<close> that reaches past the input is a
  run-time panic (the capacity of the slice is taken to be its length).
\<close>

datatype panic = SliceBoundsOutOfRange | IndexOutOfRange | AssertionFailed

partial_function (option) split_loop ::
  "(byte list \<Rightarrow> nat) \<Rightarrow> byte list \<Rightarrow> nat \<Rightarrow> byte list list \<Rightarrow> (panic + byte list list) option"
where
  "split_loop getMatchLength input pos matches =
     (if pos < length input then
        (let matchLength = getMatchLength (drop pos input) in
         if pos + matchLength > length input then Some (Inl SliceBoundsOutOfRange)
         else split_loop getMatchLength input (pos + matchLength)
                (matches @ [take matchLength (drop pos input)]))
      else Some (Inr matches))"

declare split_loop.simps [code]

definition GPT2Splitter :: "unicode \<Rightarrow> byte list \<Rightarrow> (panic + byte list list) option" where
  "GPT2Splitter U input = split_loop (gpt2_getMatchLength U) input 0 []"

definition cl100KBaseSplitter :: "unicode \<Rightarrow> byte list \<Rightarrow> (panic + byte list list) option" where
  "cl100KBaseSplitter U input = split_loop (cl100k_getMatchLength U) input 0 []"

text \<open>
  A stand-in for the category tables, used to run the splitters on concrete ASCII input:
  on ASCII it classifies as \<^verbatim>\<open>unicode.IsLetter\<close> and \<^verbatim>\<open>unicode.IsNumber\<close> do.
\<close>

definition ascii_tables :: unicode where
  "ascii_tables =
     \<lparr>IsLetter = (\<lambda>r. (0x41 \<le> r \<and> r \<le> 0x5A) \<or> (0x61 \<le> r \<and> r \<le> 0x7A)),
      IsNumber = (\<lambda>r. 0x30 \<le> r \<and> r \<le> 0x39)\<rparr>"

text \<open>The bytes of an ASCII string literal.\<close>

definition bytes_of :: "string \<Rightarrow> byte list" where
  "bytes_of s = map (\<lambda>ch. of_nat (of_char ch)) s"

section \<open>Properties of the pre-tokenizers\<close>

subsection \<open>Decoding one code point\<close>

lemma or_ge_nat: "(a::nat) \<le> a OR b"
  by (metis of_nat_0_le_iff of_nat_le_iff of_nat_or_eq or_greater_eq)

lemma or_ge_nat2: "(b::nat) \<le> a OR b"
  by (metis or_ge_nat or.commute)

lemma and1F: "unat ((w::byte) AND 0x1F) = unat w mod 32"
proof -
  have "(0x1F :: byte) = mask 5" by (simp add: mask_eq_exp_minus_1)
  then have "w AND 0x1F = take_bit 5 w" by (simp add: take_bit_eq_mask)
  then show ?thesis by (simp add: take_bit_eq_mod unat_mod)
qed

lemma and0F: "unat ((w::byte) AND 0x0F) = unat w mod 16"
proof -
  have "(0x0F :: byte) = mask 4" by (simp add: mask_eq_exp_minus_1)
  then have "w AND 0x0F = take_bit 4 w" by (simp add: take_bit_eq_mask)
  then show ?thesis by (simp add: take_bit_eq_mod unat_mod)
qed

lemma and07: "unat ((w::byte) AND 0x07) = unat w mod 8"
proof -
  have "(0x07 :: byte) = mask 3" by (simp add: mask_eq_exp_minus_1)
  then have "w AND 0x07 = take_bit 3 w" by (simp add: take_bit_eq_mask)
  then show ?thesis by (simp add: take_bit_eq_mod unat_mod)
qed

lemma and3F: "unat ((w::byte) AND 0x3F) = unat w mod 64"
proof -
  have "(0x3F :: byte) = mask 6" by (simp add: mask_eq_exp_minus_1)
  then have "w AND 0x3F = take_bit 6 w" by (simp add: take_bit_eq_mask)
  then show ?thesis by (simp add: take_bit_eq_mod unat_mod)
qed

lemma DecodeRune_ascii_byte:
  assumes "p \<noteq> []" "p ! 0 < 0x80"
  shows "DecodeRune p = (unat (p ! 0), 1)"
  using assms by (cases p) (auto simp: DecodeRune_def first_def Let_def)


lemma first_cases:
  "first p0 = 0xF0 \<and> p0 < 0x80 \<or> first p0 = 0xF1
   \<or> first p0 = 0x02 \<and> 0xC2 \<le> p0 \<and> p0 < 0xE0
   \<or> first p0 = 0x13 \<and> p0 = 0xE0
   \<or> first p0 = 0x03 \<and> 0xE1 \<le> p0 \<and> p0 < 0xF0
   \<or> first p0 = 0x23 \<and> p0 = 0xED
   \<or> first p0 = 0x34 \<and> p0 = 0xF0
   \<or> first p0 = 0x04 \<and> 0xF1 \<le> p0 \<and> p0 < 0xF4
   \<or> first p0 = 0x44 \<and> p0 = 0xF4"
  unfolding first_def word_less_nat_alt word_le_nat_alt word_unat_eq_iff
  by simp

lemma or_lb1: "k \<le> a \<Longrightarrow> k \<le> a OR (b::nat)"
  using or_ge_nat[of a b] by simp

lemma or_lb2: "k \<le> b \<Longrightarrow> k \<le> (a::nat) OR b"
  using or_ge_nat2[of b a] by simp

lemma mod_window:
  fixes n :: nat
  assumes "a * m \<le> n" "n < a * m + m"
  shows "n mod m = n - a * m"
proof -
  have "n = (n - a * m) + a * m" using assms by simp
  then have "n mod m = (n - a * m) mod m" by (metis mod_mult_self1 mult.commute)
  moreover have "n - a * m < m" using assms by arith
  ultimately show ?thesis by simp
qed

lemma mod32_window: "194 \<le> (n::nat) \<Longrightarrow> n < 224 \<Longrightarrow> 2 \<le> n mod 32"
  using mod_window[of 6 32 n] by simp

lemma mod64_window_A0: "\<not> (n::nat) < 160 \<Longrightarrow> \<not> 191 < n \<Longrightarrow> 32 \<le> n mod 64"
  using mod_window[of 2 64 n] by simp

lemma mod16_window: "225 \<le> (n::nat) \<Longrightarrow> n < 240 \<Longrightarrow> 1 \<le> n mod 16"
  using mod_window[of 14 16 n] by simp

lemma mod64_window_90: "\<not> (n::nat) < 144 \<Longrightarrow> \<not> 191 < n \<Longrightarrow> 16 \<le> n mod 64"
  using mod_window[of 2 64 n] by simp

lemma mod8_window: "241 \<le> (n::nat) \<Longrightarrow> n < 244 \<Longrightarrow> 1 \<le> n mod 8"
  using mod_window[of 30 8 n] by simp

lemma or3_lb: "k \<le> a \<or> k \<le> b \<Longrightarrow> k \<le> a OR b OR (c::nat)"
  by (metis or_lb1 or_lb2)

lemma or4_lb: "k \<le> a \<or> k \<le> b \<Longrightarrow> k \<le> a OR b OR c OR (d::nat)"
  by (metis or_lb1 or_lb2)

lemma DecodeRune_ge_0x80:
  assumes ne: "p \<noteq> []" and hi: "\<not> p ! 0 < 0x80"
  shows "0x80 \<le> fst (DecodeRune p)"
proof -
  let ?p0 = "p ! 0"
  let ?b1 = "p ! 1"
  have n: "\<not> length p < 1" using ne by (cases p) auto
  consider (xx) "first ?p0 = 0xF1"
    | (s1) "first ?p0 = 0x02" "0xC2 \<le> ?p0" "?p0 < 0xE0"
    | (s2) "first ?p0 = 0x13" "?p0 = 0xE0"
    | (s3) "first ?p0 = 0x03" "0xE1 \<le> ?p0" "?p0 < 0xF0"
    | (s4) "first ?p0 = 0x23" "?p0 = 0xED"
    | (s5) "first ?p0 = 0x34" "?p0 = 0xF0"
    | (s6) "first ?p0 = 0x04" "0xF1 \<le> ?p0" "?p0 < 0xF4"
    | (s7) "first ?p0 = 0x44" "?p0 = 0xF4"
    using first_cases[of ?p0] hi by blast
  then show ?thesis
  proof cases
    case xx
    then show ?thesis using n by (simp add: DecodeRune_def Let_def RuneError_def)
  next
    case s1
    have "2 \<le> unat ?p0 mod 32"
      using s1(2,3) by (intro mod32_window) (simp_all add: word_le_nat_alt word_less_nat_alt)
    then have "0x80 \<le> push_bit 6 (unat (?p0 AND 0x1F))"
      by (simp add: and1F push_bit_eq_mult)
    then show ?thesis
      using n s1(1)
      by (auto simp: DecodeRune_def Let_def RuneError_def acceptRanges_def intro!: or_lb1)
  next
    case s2
    have "\<not> ?b1 < 0xA0 \<Longrightarrow> \<not> 0xBF < ?b1 \<Longrightarrow> 0x80 \<le> push_bit 6 (unat (?b1 AND 0x3F))"
    proof -
      assume "\<not> ?b1 < 0xA0" "\<not> 0xBF < ?b1"
      then have "32 \<le> unat ?b1 mod 64"
        by (intro mod64_window_A0) (simp_all add: word_le_nat_alt word_less_nat_alt)
      then show ?thesis by (simp add: and3F push_bit_eq_mult)
    qed
    then show ?thesis
      using n s2(1)
      by (auto simp: DecodeRune_def Let_def RuneError_def acceptRanges_def intro!: or3_lb)
  next
    case s3
    have "1 \<le> unat ?p0 mod 16"
      using s3(2,3) by (intro mod16_window) (simp_all add: word_le_nat_alt word_less_nat_alt)
    then have "0x80 \<le> push_bit 12 (unat (?p0 AND 0x0F))"
      by (simp add: and0F push_bit_eq_mult)
    then show ?thesis
      using n s3(1)
      by (auto simp: DecodeRune_def Let_def RuneError_def acceptRanges_def intro!: or3_lb)
  next
    case s4
    have "0x80 \<le> push_bit 12 (unat (?p0 AND 0x0F))"
      using s4(2) by (simp add: and0F push_bit_eq_mult)
    then show ?thesis
      using n s4(1)
      by (auto simp: DecodeRune_def Let_def RuneError_def acceptRanges_def intro!: or3_lb)
  next
    case s5
    have "\<not> ?b1 < 0x90 \<Longrightarrow> \<not> 0xBF < ?b1 \<Longrightarrow> 0x80 \<le> push_bit 12 (unat (?b1 AND 0x3F))"
    proof -
      assume "\<not> ?b1 < 0x90" "\<not> 0xBF < ?b1"
      then have "16 \<le> unat ?b1 mod 64"
        by (intro mod64_window_90) (simp_all add: word_le_nat_alt word_less_nat_alt)
      then show ?thesis by (simp add: and3F push_bit_eq_mult)
    qed
    then show ?thesis
      using n s5(1)
      by (auto simp: DecodeRune_def Let_def RuneError_def acceptRanges_def intro!: or4_lb)
  next
    case s6
    have "1 \<le> unat ?p0 mod 8"
      using s6(2,3) by (intro mod8_window) (simp_all add: word_le_nat_alt word_less_nat_alt)
    then have "0x80 \<le> push_bit 18 (unat (?p0 AND 0x07))"
      by (simp add: and07 push_bit_eq_mult)
    then show ?thesis
      using n s6(1)
      by (auto simp: DecodeRune_def Let_def RuneError_def acceptRanges_def intro!: or4_lb)
  next
    case s7
    have "0x80 \<le> push_bit 18 (unat (?p0 AND 0x07))"
      using s7(2) by (simp add: and07 push_bit_eq_mult)
    then show ?thesis
      using n s7(1)
      by (auto simp: DecodeRune_def Let_def RuneError_def acceptRanges_def intro!: or4_lb)
  qed
qed

lemma DecodeRune_ascii:
  assumes "fst (DecodeRune p) < 0x80"
  shows "p \<noteq> [] \<and> p ! 0 < 0x80 \<and> DecodeRune p = (unat (p ! 0), 1)"
proof -
  have ne: "p \<noteq> []" using assms by (auto simp: DecodeRune_Nil RuneError_def)
  have lo: "p ! 0 < 0x80" using DecodeRune_ge_0x80[OF ne] assms by fastforce
  show ?thesis using ne lo DecodeRune_ascii_byte by blast
qed

definition cursor_ok :: "byte list \<Rightarrow> cursor \<Rightarrow> bool" where
  "cursor_ok input st \<longleftrightarrow>
     cur_pos st \<le> cur_next st \<and> cur_next st \<le> length input \<and>
     (cur_pos st < length input \<longrightarrow> cur_pos st < cur_next st)"

lemma consume_ok:
  assumes "cur_next st \<le> length input"
  shows "cursor_ok input (consume input st)"
proof -
  have le: "cur_next (consume input st) \<le> length input"
    using consume_next_le[of input st] assms by simp
  have ge: "cur_next st \<le> cur_next (consume input st)"
    by (simp add: consume_next)
  have "cur_next st < length input \<longrightarrow> cur_next st < cur_next (consume input st)"
    using consume_next_less by blast
  with le ge show ?thesis by (simp add: cursor_ok_def)
qed

lemma cursor0_consume_ok: "cursor_ok input (consume input cursor0)"
  by (rule consume_ok) (simp add: cursor0_def)

lemma consume_run_ok:
  "cursor_ok input st \<Longrightarrow>
     cursor_ok input (consume_run P input st) \<and>
     cur_pos st \<le> cur_pos (consume_run P input st) \<and>
     (cur_pos st < length input \<longrightarrow> cur_pos st < cur_pos (consume_run P input st))"
proof (induction P input st rule: consume_run.induct)
  case (1 P input st)
  show ?case
  proof (cases "cur_pos st < length input")
    case False
    then have "consume_run P input st = st" by (subst consume_run.simps) simp
    then show ?thesis using "1.prems" False by simp
  next
    case True
    let ?st' = "consume input st"
    have ok': "cursor_ok input ?st'"
      using "1.prems" by (intro consume_ok) (simp add: cursor_ok_def)
    have lt: "cur_pos st < cur_pos ?st'"
      using "1.prems" True by (simp add: cursor_ok_def)
    show ?thesis
    proof (cases "P (cur_c ?st')")
      case False
      then have "consume_run P input st = ?st'"
        using True by (subst consume_run.simps) (simp add: Let_def)
      then show ?thesis
        using True ok' lt by simp
    next
      case T: True
      have ih: "cursor_ok input (consume_run P input ?st') \<and>
                cur_pos ?st' \<le> cur_pos (consume_run P input ?st')"
        using "1.IH"[OF True refl _ ok'] T by blast
      have eq: "consume_run P input st = consume_run P input ?st'"
        using True T by (subst consume_run.simps) (simp add: Let_def)
      show ?thesis unfolding eq using ih lt True by auto
    qed
  qed
qed

lemma consume_while_ok:
  "cursor_ok input st \<Longrightarrow>
     cursor_ok input (consume_while P input st) \<and>
     cur_pos st \<le> cur_pos (consume_while P input st) \<and>
     (cur_pos st < length input \<and> P (cur_c st) \<longrightarrow> cur_pos st < cur_pos (consume_while P input st))"
proof (induction P input st rule: consume_while.induct)
  case (1 P input st)
  show ?case
  proof (cases "cur_pos st < length input \<and> P (cur_c st)")
    case False
    then have eq: "consume_while P input st = st"
      by (subst consume_while.simps) auto
    show ?thesis unfolding eq using "1.prems" False by (auto simp: cursor_ok_def)
  next
    case True
    let ?st' = "consume input st"
    have ok': "cursor_ok input ?st'"
      using "1.prems" by (intro consume_ok) (simp add: cursor_ok_def)
    have lt: "cur_pos st < cur_pos ?st'"
      using "1.prems" True by (simp add: cursor_ok_def)
    have ih: "cursor_ok input (consume_while P input ?st') \<and>
              cur_pos ?st' \<le> cur_pos (consume_while P input ?st')"
      using "1.IH"[OF True ok'] by blast
    have eq: "consume_while P input st = consume_while P input ?st'"
      using True by (subst consume_while.simps) auto
    show ?thesis unfolding eq using ih lt True by auto
  qed
qed


lemma consume_number_ok:
  "cursor_ok input st \<Longrightarrow>
     cursor_ok input (consume_number U input st count) \<and>
     cur_pos st \<le> cur_pos (consume_number U input st count) \<and>
     (cur_pos st < length input \<and> count < 3 \<longrightarrow> cur_pos st < cur_pos (consume_number U input st count))"
proof (induction U input st count rule: consume_number.induct)
  case (1 U input st count)
  show ?case
  proof (cases "cur_pos st < length input \<and> count < 3")
    case False
    then have "consume_number U input st count = st" by (subst consume_number.simps) auto
    then show ?thesis using "1.prems" False by auto
  next
    case True
    let ?st' = "consume input st"
    have ok': "cursor_ok input ?st'"
      using "1.prems" by (intro consume_ok) (simp add: cursor_ok_def)
    have lt: "cur_pos st < cur_pos ?st'"
      using "1.prems" True by (simp add: cursor_ok_def)
    show ?thesis
    proof (cases "IsNumber U (cur_c ?st')")
      case False
      then have "consume_number U input st count = ?st'"
        using True by (subst consume_number.simps) (simp add: Let_def)
      then show ?thesis
        using True ok' lt by simp
    next
      case T: True
      have ih: "cursor_ok input (consume_number U input ?st' (count + 1)) \<and>
                cur_pos ?st' \<le> cur_pos (consume_number U input ?st' (count + 1))"
        using "1.IH"[OF True refl refl _ ok'] T by blast
      have eq: "consume_number U input st count = consume_number U input ?st' (count + 1)"
        using True T by (subst consume_number.simps) (simp add: Let_def)
      show ?thesis unfolding eq using ih lt True by auto
    qed
  qed
qed

lemma cursor_ok_pos_le: "cursor_ok input st \<Longrightarrow> cur_pos st \<le> length input"
  by (simp add: cursor_ok_def)

lemma gpt2_contraction_bounds:
  "gpt2_contraction input c = Some n \<Longrightarrow> 1 \<le> n \<and> n \<le> length input"
  by (auto simp: gpt2_contraction_def Let_def split: if_splits)

lemma cl100k_contraction_bounds:
  "cl100k_contraction input c = Some n \<Longrightarrow> 1 \<le> n \<and> n \<le> length input"
  by (auto simp: cl100k_contraction_def Let_def split: if_splits)



lemma consume0_ascii:
  assumes "cur_c (consume input cursor0) = r" "r < 0x80"
  shows "input \<noteq> [] \<and> input ! 0 < 0x80 \<and> unat (input ! 0) = r
           \<and> cur_next (consume input cursor0) = 1"
proof -
  have "fst (DecodeRune input) = r"
    using assms
    by (auto simp: consume_def cursor0_def Let_def replacementChar_def RuneError_def
             split: prod.splits if_splits)
  then show ?thesis
    using DecodeRune_ascii[of input] assms(2)
    by (auto simp: consume_def cursor0_def Let_def)
qed

lemma gpt2_getMatchLength_bounds:
  assumes "input \<noteq> []"
  shows "1 \<le> gpt2_getMatchLength U input \<and> gpt2_getMatchLength U input \<le> length input"
proof (cases "gpt2_contraction input (cur_c (consume input cursor0))")
  case (Some n)
  then show ?thesis
    using gpt2_contraction_bounds[OF Some] by (simp add: gpt2_getMatchLength_def Let_def)
next
  case None
  let ?cc = "length input"
  let ?st0 = "consume input cursor0"
  define st1 where "st1 = (if cur_c ?st0 = 0x20 \<and> ?cc \<ge> 2 then consume input ?st0 else ?st0)"
  have cc: "0 < ?cc" using assms by simp
  have ok0: "cursor_ok input ?st0" by (rule cursor0_consume_ok)
  have pos0: "cur_pos ?st0 = 0" by (simp add: cursor0_def)
  have ok1: "cursor_ok input st1"
  proof (cases "cur_c ?st0 = 0x20 \<and> ?cc \<ge> 2")
    case True
    have "cur_next ?st0 \<le> ?cc" using ok0 by (simp add: cursor_ok_def)
    then have "cursor_ok input (consume input ?st0)" by (rule consume_ok)
    then show ?thesis using True by (simp add: st1_def)
  next
    case False
    then show ?thesis using ok0 by (auto simp: st1_def)
  qed
  have pos1: "cur_pos st1 < ?cc"
  proof (cases "cur_c ?st0 = 0x20 \<and> ?cc \<ge> 2")
    case True
    have "cur_next ?st0 = 1"
      using consume0_ascii[of input "0x20"] True by simp
    then show ?thesis using True by (simp add: st1_def)
  next
    case False
    then have "st1 = ?st0" by (auto simp: st1_def)
    then show ?thesis using cc pos0 by simp
  qed
  have run: "\<And>P. 1 \<le> cur_pos (consume_run P input st1) \<and> cur_pos (consume_run P input st1) \<le> ?cc"
  proof -
    fix P
    from consume_run_ok[OF ok1, of P] pos1
    have "cursor_ok input (consume_run P input st1)" "cur_pos st1 < cur_pos (consume_run P input st1)"
      by auto
    then show "1 \<le> cur_pos (consume_run P input st1) \<and> cur_pos (consume_run P input st1) \<le> ?cc"
      using cursor_ok_pos_le by fastforce
  qed
  have ws: "IsSpace (cur_c st1) \<Longrightarrow>
     1 \<le> cur_pos (consume_while IsSpace input st1) \<and> cur_pos (consume_while IsSpace input st1) \<le> ?cc"
  proof -
    assume sp: "IsSpace (cur_c st1)"
    from consume_while_ok[OF ok1, of IsSpace] pos1 sp
    have "cursor_ok input (consume_while IsSpace input st1)"
         "cur_pos st1 < cur_pos (consume_while IsSpace input st1)"
      by auto
    then show ?thesis using cursor_ok_pos_le by fastforce
  qed
  have eq: "gpt2_getMatchLength U input =
     (if IsLetter U (cur_c st1) then cur_pos (consume_run (IsLetter U) input st1)
      else if IsNumber U (cur_c st1) then cur_pos (consume_run (IsNumber U) input st1)
      else if \<not> IsSpace (cur_c st1) then
        cur_pos (consume_run (\<lambda>c. \<not> (IsSpace c \<or> IsLetter U c \<or> IsNumber U c)) input st1)
      else
        (let st2 = consume_while IsSpace input st1 in
         if cur_pos st2 \<ge> 2 \<and> cur_pos st2 < ?cc \<and> \<not> IsSpace (cur_c st2)
         then cur_pos st2 - 1 else cur_pos st2))"
    using None by (simp add: gpt2_getMatchLength_def Let_def st1_def)
  show ?thesis
    unfolding eq using run ws by (auto simp: Let_def)
qed


lemma cl100k_getMatchLength_bounds:
  assumes "input \<noteq> []"
  shows "1 \<le> cl100k_getMatchLength U input \<and> cl100k_getMatchLength U input \<le> length input"
proof (cases "cl100k_contraction input (cur_c (consume input cursor0))")
  case (Some n)
  then show ?thesis
    using cl100k_contraction_bounds[OF Some] by (simp add: cl100k_getMatchLength_def Let_def)
next
  case None
  let ?cc = "length input"
  let ?st0 = "consume input cursor0"
  let ?other = "\<lambda>c. \<not> (IsSpace c \<or> IsLetter U c \<or> IsNumber U c)"
  define peek where "peek = (if cur_next ?st0 < ?cc then fst (DecodeRune (drop (cur_next ?st0) input))
                         else replacementChar)"
  define st1 where "st1 = (if cur_c ?st0 = 0x20 \<and> ?cc \<ge> 2 then consume input ?st0 else ?st0)"
  have cc: "0 < ?cc" using assms by simp
  have ok0: "cursor_ok input ?st0" by (rule cursor0_consume_ok)
  have pos0: "cur_pos ?st0 = 0" by (simp add: cursor0_def)
  have ok1: "cursor_ok input st1"
  proof (cases "cur_c ?st0 = 0x20 \<and> ?cc \<ge> 2")
    case True
    have "cur_next ?st0 \<le> ?cc" using ok0 by (simp add: cursor_ok_def)
    then have "cursor_ok input (consume input ?st0)" by (rule consume_ok)
    then show ?thesis using True by (simp add: st1_def)
  next
    case False
    then show ?thesis using ok0 by (auto simp: st1_def)
  qed
  have pos1: "cur_pos st1 < ?cc \<and> (cur_pos st1 = 0 \<longrightarrow> st1 = ?st0)"
  proof (cases "cur_c ?st0 = 0x20 \<and> ?cc \<ge> 2")
    case True
    have "cur_next ?st0 = 1"
      using consume0_ascii[of input "0x20"] True by simp
    then show ?thesis using True by (simp add: st1_def)
  next
    case False
    then have "st1 = ?st0" by (auto simp: st1_def)
    then show ?thesis using cc pos0 by simp
  qed
  have letters: "1 \<le> cur_pos (consume_run (IsLetter U) input ?st0)
                 \<and> cur_pos (consume_run (IsLetter U) input ?st0) \<le> ?cc"
    using consume_run_ok[OF ok0, of "IsLetter U"] pos0 cc cursor_ok_pos_le by fastforce
  have numbers: "1 \<le> cur_pos (consume_number U input ?st0 0)
                 \<and> cur_pos (consume_number U input ?st0 0) \<le> ?cc"
    using consume_number_ok[OF ok0, of U 0] pos0 cc cursor_ok_pos_le by fastforce
  have others: "1 \<le> cur_pos (consume_while (\<lambda>c. c = 0x0D \<or> c = 0x0A) input (consume_run ?other input st1))
       \<and> cur_pos (consume_while (\<lambda>c. c = 0x0D \<or> c = 0x0A) input (consume_run ?other input st1)) \<le> ?cc"
  proof -
    let ?st2 = "consume_run ?other input st1"
    have a: "cursor_ok input ?st2" "cur_pos st1 < cur_pos ?st2"
      using consume_run_ok[OF ok1, of ?other] pos1 by auto
    from consume_while_ok[OF a(1), of "\<lambda>c. c = 0x0D \<or> c = 0x0A"] a(2)
    show ?thesis using cursor_ok_pos_le by fastforce
  qed
  have ws: "cur_pos st1 = 0 \<longrightarrow> IsSpace (cur_c st1) \<Longrightarrow>
     1 \<le> cur_pos (consume_while IsSpace input st1) \<and> cur_pos (consume_while IsSpace input st1) \<le> ?cc"
  proof -
    assume sp: "cur_pos st1 = 0 \<longrightarrow> IsSpace (cur_c st1)"
    from consume_while_ok[OF ok1, of IsSpace] pos1 sp
    have "cursor_ok input (consume_while IsSpace input st1)"
         "1 \<le> cur_pos (consume_while IsSpace input st1)"
      by (auto simp: Suc_le_eq)
    then show ?thesis using cursor_ok_pos_le by fastforce
  qed
  define isL where "isL \<longleftrightarrow> IsLetter U (cur_c ?st0) \<or> (?cc \<ge> 2 \<and> \<not> IsNumber U (cur_c ?st0)
           \<and> cur_c ?st0 \<noteq> 0x0D \<and> cur_c ?st0 \<noteq> 0x0A \<and> IsLetter U peek)"
  define isO where "isO \<longleftrightarrow> \<not> IsSpace (cur_c st1) \<and> \<not> IsLetter U (cur_c st1) \<and> \<not> IsNumber U (cur_c st1)"
  have eq: "cl100k_getMatchLength U input =
     (if isL then cur_pos (consume_run (IsLetter U) input ?st0)
      else if IsNumber U (cur_c ?st0) then cur_pos (consume_number U input ?st0 0)
      else if isO then
        cur_pos (consume_while (\<lambda>c. c = 0x0D \<or> c = 0x0A) input (consume_run ?other input st1))
      else
        (let st2 = consume_while IsSpace input st1 in
         if cur_pos st2 \<ge> 2 \<and> cur_pos st2 < ?cc \<and> \<not> IsSpace (cur_c st2)
         then cur_pos st2 - 1 else cur_pos st2))"
    using None by (simp add: cl100k_getMatchLength_def Let_def st1_def peek_def isL_def isO_def)
  show ?thesis
  proof (cases isL)
    case True
    then show ?thesis unfolding eq using letters by simp
  next
    case nl: False
    show ?thesis
    proof (cases "IsNumber U (cur_c ?st0)")
      case True
      then show ?thesis unfolding eq using nl numbers by simp
    next
      case nn: False
      show ?thesis
      proof (cases isO)
        case True
        then show ?thesis unfolding eq using nl nn others by simp
      next
        case False
        have "cur_pos st1 = 0 \<longrightarrow> IsSpace (cur_c st1)"
          using False nl nn pos1 by (auto simp: isL_def isO_def)
        from ws[OF this] show ?thesis
          unfolding eq using nl nn False by (auto simp: Let_def)
      qed
    qed
  qed
qed

lemma split_loop_total:
  assumes g: "\<And>bs. bs \<noteq> [] \<Longrightarrow> 1 \<le> g bs \<and> g bs \<le> length bs"
  shows "pos \<le> length input \<Longrightarrow>
         \<exists>ms. split_loop g input pos acc = Some (Inr (acc @ ms)) \<and> concat ms = drop pos input
               \<and> [] \<notin> set ms"
proof (induction "length input - pos" arbitrary: pos acc rule: less_induct)
  case less
  show ?case
  proof (cases "pos < length input")
    case False
    then have "split_loop g input pos acc = Some (Inr acc)"
      by (subst split_loop.simps) simp
    then show ?thesis using False by simp
  next
    case True
    let ?ml = "g (drop pos input)"
    have b: "1 \<le> ?ml" "?ml \<le> length input - pos"
      using g[of "drop pos input"] True by auto
    have le: "pos + ?ml \<le> length input" using b True by arith
    have step: "split_loop g input pos acc =
                split_loop g input (pos + ?ml) (acc @ [take ?ml (drop pos input)])"
      using True le by (subst split_loop.simps) (simp add: Let_def)
    have "length input - (pos + ?ml) < length input - pos" using b True by arith
    from less.hyps[OF this le, of "acc @ [take ?ml (drop pos input)]"]
    obtain ms where ms: "split_loop g input (pos + ?ml) (acc @ [take ?ml (drop pos input)])
                          = Some (Inr ((acc @ [take ?ml (drop pos input)]) @ ms))"
                     "concat ms = drop (pos + ?ml) input" "[] \<notin> set ms"
      by blast
    let ?ms = "take ?ml (drop pos input) # ms"
    have "drop ?ml (drop pos input) = drop (pos + ?ml) input" by (simp add: add.commute)
    then have c: "concat ?ms = drop pos input"
      using ms(2) append_take_drop_id[of ?ml "drop pos input"] by (simp del: drop_drop)
    have "take ?ml (drop pos input) \<noteq> []" using b True by auto
    then have "[] \<notin> set ?ms" using ms(3) by auto
    then show ?thesis using step ms(1) c by (intro exI[of _ ?ms]) simp
  qed
qed


subsection \<open>Progress and coverage of the splitters\<close>

lemma length_le_concat: "[] \<notin> set ms \<Longrightarrow> length ms \<le> length (concat ms)"
proof (induction ms)
  case Nil
  then show ?case by simp
next
  case (Cons m ms)
  then have "1 \<le> length m" by (cases m) auto
  with Cons show ?case by simp
qed

text \<open>
  C8. On every non-empty input both \<^verbatim>\<open>getMatchLength\<close> functions return a length
  between 1 and the length of the input, and on every buffer both driver loops return
  (they neither run forever nor panic), with at most one substring per input byte.
\<close>

theorem getMatchLength_progress:
  "(input \<noteq> [] \<longrightarrow>
      1 \<le> gpt2_getMatchLength U input \<and> gpt2_getMatchLength U input \<le> length input \<and>
      1 \<le> cl100k_getMatchLength U input \<and> cl100k_getMatchLength U input \<le> length input) \<and>
   (\<exists>ms. GPT2Splitter U b = Some (Inr ms) \<and> length ms \<le> length b) \<and>
   (\<exists>ms. cl100KBaseSplitter U b = Some (Inr ms) \<and> length ms \<le> length b)"
proof -
  have g: "\<And>bs. bs \<noteq> [] \<Longrightarrow> 1 \<le> gpt2_getMatchLength U bs \<and> gpt2_getMatchLength U bs \<le> length bs"
    by (rule gpt2_getMatchLength_bounds)
  have c: "\<And>bs. bs \<noteq> [] \<Longrightarrow> 1 \<le> cl100k_getMatchLength U bs \<and> cl100k_getMatchLength U bs \<le> length bs"
    by (rule cl100k_getMatchLength_bounds)
  obtain ms1 where 1: "GPT2Splitter U b = Some (Inr ms1)" "concat ms1 = b" "[] \<notin> set ms1"
    using split_loop_total[of "gpt2_getMatchLength U" 0 b "[]", OF g]
    by (auto simp: GPT2Splitter_def)
  obtain ms2 where 2: "cl100KBaseSplitter U b = Some (Inr ms2)" "concat ms2 = b" "[] \<notin> set ms2"
    using split_loop_total[of "cl100k_getMatchLength U" 0 b "[]", OF c]
    by (auto simp: cl100KBaseSplitter_def)
  have "length ms1 \<le> length b" "length ms2 \<le> length b"
    using length_le_concat[OF 1(3)] length_le_concat[OF 2(3)] 1(2) 2(2) by simp_all
  then show ?thesis using g[of input] c[of input] 1(1) 2(1) by simp
qed

theorem getMatchLength_progress_witness:
  "bytes_of ''a a'' \<noteq> [] \<and>
   1 \<le> gpt2_getMatchLength ascii_tables (bytes_of ''a a'') \<and>
   gpt2_getMatchLength ascii_tables (bytes_of ''a a'') \<le> length (bytes_of ''a a'') \<and>
   1 \<le> cl100k_getMatchLength ascii_tables (bytes_of ''a a'') \<and>
   cl100k_getMatchLength ascii_tables (bytes_of ''a a'') \<le> length (bytes_of ''a a'') \<and>
   (\<exists>ms. GPT2Splitter ascii_tables (bytes_of ''a a'') = Some (Inr ms)) \<and>
   (\<exists>ms. cl100KBaseSplitter ascii_tables (bytes_of ''a a'') = Some (Inr ms))"
proof -
  have ne: "bytes_of ''a a'' \<noteq> []" by (simp add: bytes_of_def)
  show ?thesis
    using getMatchLength_progress[of "bytes_of ''a a''" ascii_tables "bytes_of ''a a''"] ne
    by blast
qed

text \<open>
  C2. For every buffer, both splitters return a list of substrings whose concatenation is
  the buffer itself; each substring is cut from the position where the previous one ended
  and none is empty.
\<close>

theorem splitter_coverage:
  "(\<exists>ms. GPT2Splitter U b = Some (Inr ms) \<and> concat ms = b \<and> [] \<notin> set ms) \<and>
   (\<exists>ms. cl100KBaseSplitter U b = Some (Inr ms) \<and> concat ms = b \<and> [] \<notin> set ms)"
  using split_loop_total[of "gpt2_getMatchLength U" 0 b "[]", OF gpt2_getMatchLength_bounds]
        split_loop_total[of "cl100k_getMatchLength U" 0 b "[]", OF cl100k_getMatchLength_bounds]
  by (simp add: GPT2Splitter_def cl100KBaseSplitter_def)

theorem splitter_coverage_witness:
  "\<exists>ms. GPT2Splitter ascii_tables (bytes_of ''a a'') = Some (Inr ms)
        \<and> concat ms = bytes_of ''a a''"
  using splitter_coverage[of ascii_tables "bytes_of ''a a''"] by blast


subsection \<open>Contractions\<close>


definition lower :: "byte \<Rightarrow> byte" where
  "lower b = (if 0x41 \<le> b \<and> b \<le> 0x5A then b + 0x20 else b)"








lemma lower_values:
  "lower 0x73 = 0x73" "lower 0x53 = 0x73" "lower 0x74 = 0x74" "lower 0x54 = 0x74"
  "lower 0x6D = 0x6D" "lower 0x4D = 0x6D" "lower 0x64 = 0x64" "lower 0x44 = 0x64"
  "lower 0x72 = 0x72" "lower 0x52 = 0x72" "lower 0x76 = 0x76" "lower 0x56 = 0x76"
  "lower 0x65 = 0x65" "lower 0x45 = 0x65" "lower 0x6C = 0x6C" "lower 0x4C = 0x6C"
  by (simp_all add: lower_def)










subsection \<open>Whitespace runs\<close>

text \<open>The cursor that \<^verbatim>\<open>consume\<close> produces at offset \<open>p\<close>.\<close>

definition cursor_at :: "byte list \<Rightarrow> nat \<Rightarrow> cursor" where
  "cursor_at input p =
     \<lparr>cur_pos = p, cur_next = p + snd (DecodeRune (drop p input)),
      cur_c = fst (DecodeRune (drop p input))\<rparr>"

lemma consume_eq: "consume input st = cursor_at input (cur_next st)"
  by (simp add: consume_def cursor_at_def Let_def RuneError_def replacementChar_def
           split: prod.splits)

lemma cursor_at_simps [simp]:
  "cur_pos (cursor_at input p) = p"
  "cur_next (cursor_at input p) = p + snd (DecodeRune (drop p input))"
  "cur_c (cursor_at input p) = fst (DecodeRune (drop p input))"
  by (simp_all add: cursor_at_def)

text \<open>
  The byte length and the number of code points of the maximal run of whitespace code points
  at the head of \<open>bs\<close>, decoding as the splitters do (an invalid byte counts as U+FFFD).
\<close>

function ws_run :: "byte list \<Rightarrow> nat \<times> nat" where
  "ws_run bs =
     (if bs = [] then (0, 0)
      else (let (r, n) = DecodeRune bs in
            if IsSpace r then (let (l, k) = ws_run (drop n bs) in (n + l, k + 1))
            else (0, 0)))"
  by pat_completeness auto
termination
proof (relation "measure length")
  show "wf (measure length)" by simp
next
  fix bs :: "byte list" and x r n
  assume "bs \<noteq> []" "x = DecodeRune bs" "(r, n) = x"
  then have "1 \<le> n" using DecodeRune_size[of bs] by (metis snd_conv)
  then show "(drop n bs, bs) \<in> measure length" using \<open>bs \<noteq> []\<close> by simp
qed

declare ws_run.simps [simp del]

lemma ws_run_Nil [simp]: "ws_run [] = (0, 0)"
  by (simp add: ws_run.simps)

lemma ws_run_le: "fst (ws_run bs) \<le> length bs"
proof (induction bs rule: ws_run.induct)
  case (1 bs)
  show ?case
  proof (cases "bs = []")
    case True
    then show ?thesis by simp
  next
    case False
    obtain r n where d: "DecodeRune bs = (r, n)" by (cases "DecodeRune bs")
    have n: "1 \<le> n" "n \<le> length bs" using DecodeRune_size[OF False] d by auto
    show ?thesis
    proof (cases "IsSpace r")
      case True
      have "fst (ws_run (drop n bs)) \<le> length (drop n bs)"
        using "1.IH"[OF False d[symmetric] refl True] .
      then show ?thesis
        using False d True n by (subst ws_run.simps) (auto split: prod.splits)
    next
      case F: False
      then show ?thesis using False d by (subst ws_run.simps) simp
    qed
  qed
qed

lemma ws_run_step:
  assumes "bs \<noteq> []" "IsSpace (fst (DecodeRune bs))"
  shows "ws_run bs = (snd (DecodeRune bs) + fst (ws_run (drop (snd (DecodeRune bs)) bs)),
                      snd (ws_run (drop (snd (DecodeRune bs)) bs)) + 1)"
  using assms by (subst ws_run.simps) (auto split: prod.splits)

lemma ws_run_stop:
  assumes "bs = [] \<or> \<not> IsSpace (fst (DecodeRune bs))"
  shows "ws_run bs = (0, 0)"
  using assms by (subst ws_run.simps) (auto split: prod.splits)




lemma ws_run_fst_pos:
  assumes "bs \<noteq> []" "IsSpace (fst (DecodeRune bs))"
  shows "1 \<le> fst (ws_run bs) \<and> 1 \<le> snd (ws_run bs)"
  using ws_run_step[OF assms] DecodeRune_size[OF assms(1)] by simp

lemma ws_run_zero_iff: "fst (ws_run bs) = 0 \<longleftrightarrow> snd (ws_run bs) = 0"
  using ws_run_fst_pos[of bs] ws_run_stop[of bs] by (cases "bs = [] \<or> \<not> IsSpace (fst (DecodeRune bs))") auto

lemma consume0_eq: "consume input cursor0 = cursor_at input 0"
  by (simp add: consume_eq cursor0_def)

lemma cur_next_cursor0 [simp]: "cur_next cursor0 = 0"
  by (simp add: cursor0_def)









subsection \<open>Number runs\<close>

text \<open>
  The byte length and the number of code points of the longest run of number code points
  at the head of \<open>bs\<close> that has at most \<open>cap\<close> code points.
\<close>

function num_run :: "unicode \<Rightarrow> nat \<Rightarrow> byte list \<Rightarrow> nat \<times> nat" where
  "num_run U cap bs =
     (if cap = 0 \<or> bs = [] then (0, 0)
      else (let (r, n) = DecodeRune bs in
            if IsNumber U r then (let (l, k) = num_run U (cap - 1) (drop n bs) in (n + l, k + 1))
            else (0, 0)))"
  by pat_completeness auto
termination
  by (relation "measure (\<lambda>(U, cap, bs). cap)") auto

declare num_run.simps [simp del]

lemma num_run_count: "snd (num_run U cap bs) \<le> cap"
proof (induction U cap bs rule: num_run.induct)
  case (1 U cap bs)
  show ?case
  proof (cases "cap = 0 \<or> bs = []")
    case True
    then show ?thesis by (subst num_run.simps) simp
  next
    case False
    obtain r n where d: "DecodeRune bs = (r, n)" by (cases "DecodeRune bs")
    show ?thesis
    proof (cases "IsNumber U r")
      case True
      have "snd (num_run U (cap - 1) (drop n bs)) \<le> cap - 1"
        using "1.IH"[OF False d[symmetric] refl True] .
      then show ?thesis
        using False d True by (subst num_run.simps) (auto split: prod.splits)
    next
      case F: False
      then show ?thesis using False d by (subst num_run.simps) simp
    qed
  qed
qed

lemma num_run_step:
  assumes "cap \<noteq> 0" "bs \<noteq> []" "IsNumber U (fst (DecodeRune bs))"
  shows "fst (num_run U cap bs)
           = snd (DecodeRune bs) + fst (num_run U (cap - 1) (drop (snd (DecodeRune bs)) bs))"
  using assms by (subst num_run.simps) (auto split: prod.splits)

lemma num_run_stop:
  assumes "cap = 0 \<or> bs = [] \<or> \<not> IsNumber U (fst (DecodeRune bs))"
  shows "num_run U cap bs = (0, 0)"
  using assms by (subst num_run.simps) (auto split: prod.splits)

lemma number_loop:
  assumes "p < length input" "count < 3" "IsNumber U (fst (DecodeRune (drop p input)))"
  shows "cur_pos (consume_number U input (cursor_at input p) count)
           = p + fst (num_run U (3 - count) (drop p input))"
  using assms
proof (induction "3 - count" arbitrary: p count rule: less_induct)
  case less
  let ?n = "snd (DecodeRune (drop p input))"
  let ?p1 = "p + ?n"
  let ?st1 = "cursor_at input ?p1"
  have ne: "drop p input \<noteq> []" using less.prems by simp
  have n: "1 \<le> ?n" "?n \<le> length input - p" using DecodeRune_size[OF ne] by auto
  have step: "fst (num_run U (3 - count) (drop p input))
                = ?n + fst (num_run U (3 - count - 1) (drop ?p1 input))"
    using num_run_step[of "3 - count" "drop p input" U] less.prems ne
    by (simp add: add.commute)
  show ?case
  proof (cases "IsNumber U (fst (DecodeRune (drop ?p1 input))) \<and> ?p1 < length input \<and> count + 1 < 3")
    case True
    have "consume_number U input (cursor_at input p) count
            = consume_number U input ?st1 (count + 1)"
      using less.prems True by (subst consume_number.simps) (simp add: Let_def consume_eq)
    moreover have "cur_pos (consume_number U input ?st1 (count + 1))
            = ?p1 + fst (num_run U (3 - (count + 1)) (drop ?p1 input))"
    proof -
      have "3 - (count + 1) < 3 - count" using True by arith
      from less.hyps[OF this] True show ?thesis by simp
    qed
    ultimately show ?thesis using step by simp
  next
    case False
    have stop: "num_run U (3 - count - 1) (drop ?p1 input) = (0, 0)"
      using False less.prems n by (intro num_run_stop) auto
    have "cur_pos (consume_number U input (cursor_at input p) count) = ?p1"
    proof (cases "IsNumber U (fst (DecodeRune (drop ?p1 input)))")
      case F: False
      then show ?thesis
        using less.prems by (subst consume_number.simps) (simp add: Let_def consume_eq)
    next
      case T: True
      have "consume_number U input ?st1 (count + 1) = ?st1"
        using False T by (subst consume_number.simps) auto
      then show ?thesis
        using less.prems T by (subst consume_number.simps) (simp add: Let_def consume_eq)
    qed
    then show ?thesis using step stop by simp
  qed
qed

lemma cl100k_number_branch:
  assumes ne: "input \<noteq> []"
      and num: "IsNumber U (fst (DecodeRune input))"
      and nl: "\<not> IsLetter U (fst (DecodeRune input))"
      and na: "fst (DecodeRune input) \<noteq> 0x27"
  shows "cl100k_getMatchLength U input = fst (num_run U 3 input)"
proof -
  define st0 where "st0 = consume input cursor0"
  have st0: "st0 = cursor_at input 0" by (simp add: st0_def consume0_eq)
  have c0: "cur_c st0 = fst (DecodeRune input)" by (simp add: st0)
  have none: "cl100k_contraction input (cur_c st0) = None"
    using na by (simp add: cl100k_contraction_def c0)
  have "cur_pos (consume_number U input (cursor_at input 0) 0)
          = 0 + fst (num_run U (3 - 0) (drop 0 input))"
    using ne num by (intro number_loop) simp_all
  then have run: "cur_pos (consume_number U input st0 0) = fst (num_run U 3 input)"
    by (simp add: st0)
  show ?thesis
    unfolding cl100k_getMatchLength_def Let_def st0_def[symmetric] none
    using num nl run by (simp add: c0)
qed

lemmas splitter_eval =
  consume_def cursor0_def DecodeRune_def first_def acceptRanges_def RuneError_def
  replacementChar_def IsSpace_def bytes_of_def cl100k_contraction_def gpt2_contraction_def
  consume_run.simps consume_while.simps consume_number.simps Let_def

text \<open>
  C7. In the CL100K splitter a match that starts with a number code point is the longest run
  of number code points with at most three code points; and for any category tables that
  classify ASCII as Unicode does, \<open>a a 1234567890 z\<close> splits as the test suite expects.
\<close>

theorem number_run_cap:
  "(input \<noteq> [] \<and> IsNumber U (fst (DecodeRune input)) \<and> \<not> IsLetter U (fst (DecodeRune input))
      \<and> fst (DecodeRune input) \<noteq> 0x27 \<longrightarrow>
      cl100k_getMatchLength U input = fst (num_run U 3 input) \<and> snd (num_run U 3 input) \<le> 3) \<and>
   ((\<forall>r<0x80. IsLetter U r = IsLetter ascii_tables r \<and> IsNumber U r = IsNumber ascii_tables r) \<longrightarrow>
      cl100KBaseSplitter U (bytes_of ''a a 1234567890 z'') =
        Some (Inr (map bytes_of [''a'', '' a'', '' '', ''123'', ''456'', ''789'', ''0'', '' z''])))"
proof (intro conjI impI)
  assume "input \<noteq> [] \<and> IsNumber U (fst (DecodeRune input)) \<and> \<not> IsLetter U (fst (DecodeRune input))
      \<and> fst (DecodeRune input) \<noteq> 0x27"
  then show "cl100k_getMatchLength U input = fst (num_run U 3 input)"
    using cl100k_number_branch by blast
next
  show "snd (num_run U 3 input) \<le> 3" by (rule num_run_count)
next
  assume A: "\<forall>r<0x80. IsLetter U r = IsLetter ascii_tables r \<and> IsNumber U r = IsNumber ascii_tables r"
  have L: "\<And>r. r < 0x80 \<Longrightarrow> IsLetter U r = ((0x41 \<le> r \<and> r \<le> 0x5A) \<or> (0x61 \<le> r \<and> r \<le> 0x7A))"
    using A by (simp add: ascii_tables_def)
  have N: "\<And>r. r < 0x80 \<Longrightarrow> IsNumber U r = (0x30 \<le> r \<and> r \<le> 0x39)"
    using A by (simp add: ascii_tables_def)
  show "cl100KBaseSplitter U (bytes_of ''a a 1234567890 z'') =
        Some (Inr (map bytes_of [''a'', '' a'', '' '', ''123'', ''456'', ''789'', ''0'', '' z'']))"
    by (simp add: cl100KBaseSplitter_def split_loop.simps cl100k_getMatchLength_def
          splitter_eval L N)
qed

theorem number_run_cap_witness:
  "[0x31, 0x32, 0x33, 0x34] \<noteq> [] \<and> IsNumber ascii_tables (fst (DecodeRune [0x31, 0x32, 0x33, 0x34])) \<and>
   \<not> IsLetter ascii_tables (fst (DecodeRune [0x31, 0x32, 0x33, 0x34])) \<and>
   fst (DecodeRune [0x31, 0x32, 0x33, 0x34]) \<noteq> 0x27 \<and>
   cl100k_getMatchLength ascii_tables [0x31, 0x32, 0x33, 0x34] = 3 \<and>
   cl100KBaseSplitter ascii_tables (bytes_of ''a a 1234567890 z'') =
        Some (Inr (map bytes_of [''a'', '' a'', '' '', ''123'', ''456'', ''789'', ''0'', '' z'']))"
proof -
  have d: "DecodeRune [0x31, 0x32, 0x33, 0x34] = (0x31, 1)"
    by (simp add: DecodeRune_def first_def)
  have n: "num_run ascii_tables 3 [0x31, 0x32, 0x33, 0x34] = (3, 3)"
    by (simp add: num_run.simps DecodeRune_def first_def ascii_tables_def)
  show ?thesis
    using number_run_cap[of "[0x31, 0x32, 0x33, 0x34]" ascii_tables] d n
    by (simp add: ascii_tables_def)
qed

section \<open>The trie of the data generator (gen/trie.go)\<close>

text \<open>
  \<^verbatim>\<open>TrieNode\<close>. The field \<^verbatim>\<open>fixup\<close>, scratch space of \<^verbatim>\<open>serialize\<close>, is kept
  in a store of its own (see below), so that the tree itself is a value.
\<close>

datatype TrieNode = TrieNode (node_value: byte) (node_children: "TrieNode list") (node_index: int)

definition newTrieNode :: "byte \<Rightarrow> TrieNode" where
  "newTrieNode v = TrieNode v [] (-1)"

text \<open>\<^verbatim>\<open>sort.Search(n, f)\<close> of the Go standard library: binary search for the least index where \<open>f\<close> holds.\<close>

function search_loop :: "(nat \<Rightarrow> bool) \<Rightarrow> nat \<Rightarrow> nat \<Rightarrow> nat" where
  "search_loop f i j =
     (if i < j then
        (let h = (i + j) div 2 in
         if \<not> f h then search_loop f (h + 1) j else search_loop f i h)
      else i)"
  by pat_completeness auto
termination
  by (relation "measure (\<lambda>(f, i, j). j - i)") auto

declare search_loop.simps [simp del]

definition sort_Search :: "nat \<Rightarrow> (nat \<Rightarrow> bool) \<Rightarrow> nat" where
  "sort_Search n f = search_loop f 0 n"

text \<open>
  \<^verbatim>\<open>insert\<close>: the loop over the bytes of the token walks down from the node, creating
  the missing children; here each iteration is one recursive call, which returns the node
  with the child replaced. The new child is put in at \<open>insertPos\<close> as the code does it:
  \<^verbatim>\<open>append(children[:insertPos+1], children[insertPos:]...)\<close> and then an assignment.
\<close>

fun insert_trie :: "TrieNode \<Rightarrow> byte list \<Rightarrow> int \<Rightarrow> TrieNode" where
  "insert_trie (TrieNode v cs idx) [] index = TrieNode v cs index"
| "insert_trie (TrieNode v cs idx) (char # token) index =
     (let insertPos = sort_Search (length cs) (\<lambda>i. node_value (cs ! i) \<ge> char) in
      if insertPos < length cs \<and> node_value (cs ! insertPos) = char then
        TrieNode v (cs[insertPos := insert_trie (cs ! insertPos) token index]) idx
      else
        (let newNode = insert_trie (newTrieNode char) token index in
         if insertPos = length cs then TrieNode v (cs @ [newNode]) idx
         else TrieNode v ((take (insertPos + 1) cs @ drop insertPos cs)[insertPos := newNode]) idx))"

definition BuildTrie :: "byte list list \<Rightarrow> TrieNode" where
  "BuildTrie tokens =
     fold (\<lambda>(index, token) root. insert_trie root token (int index)) (enumerate 0 tokens) (newTrieNode 0)"

fun lookup :: "TrieNode \<Rightarrow> byte list \<Rightarrow> int" where
  "lookup node [] = node_index node"
| "lookup node (char # token) =
     (let cs = node_children node;
          searchPos = sort_Search (length cs) (\<lambda>i. node_value (cs ! i) \<ge> char) in
      if searchPos < length cs \<and> node_value (cs ! searchPos) = char
      then lookup (cs ! searchPos) token
      else -1)"

text \<open>
  \<^verbatim>\<open>walk\<close> calls \<open>fn\<close> on the node and then walks the children in order. The functions
  passed to it update variables of the enclosing function, which are the state \<open>'s\<close> here.
  The path from the root identifies the node (it stands for the pointer). The node count
  that \<^verbatim>\<open>walk\<close> returns is not used by \<^verbatim>\<open>serialize\<close> and is left out.
\<close>

fun walk :: "(TrieNode \<Rightarrow> nat list \<Rightarrow> nat \<Rightarrow> 's \<Rightarrow> 's) \<Rightarrow> nat list \<Rightarrow> nat \<Rightarrow> TrieNode \<Rightarrow> 's \<Rightarrow> 's"
  and walk_children ::
    "(TrieNode \<Rightarrow> nat list \<Rightarrow> nat \<Rightarrow> 's \<Rightarrow> 's) \<Rightarrow> nat list \<Rightarrow> nat \<Rightarrow> nat \<Rightarrow> TrieNode list \<Rightarrow> 's \<Rightarrow> 's"
where
  "walk fn path depth (TrieNode v cs idx) st =
     walk_children fn path depth 0 cs (fn (TrieNode v cs idx) path depth st)"
| "walk_children fn path depth j [] st = st"
| "walk_children fn path depth j (child # cs) st =
     walk_children fn path depth (j + 1) cs (walk fn (path @ [j]) (depth + 1) child st)"

record ser_state =
  ser_output :: "32 word list"
  ser_i :: nat
  ser_fixup :: "nat list \<Rightarrow> nat"
  ser_panic :: "panic option"

text \<open>
  An assignment \<^verbatim>\<open>output[k] = w\<close>. Out of range it panics: the panic is recorded, and
  \<open>serialize\<close> returns it whatever is computed afterwards.
\<close>

definition wr :: "nat \<Rightarrow> 32 word \<Rightarrow> ser_state \<Rightarrow> ser_state" where
  "wr k w st =
     (if k < length (ser_output st) then st\<lparr>ser_output := (ser_output st)[k := w]\<rparr>
      else st\<lparr>ser_panic := (case ser_panic st of None \<Rightarrow> Some IndexOutOfRange | Some e \<Rightarrow> Some e)\<rparr>)"

text \<open>The loop over the children of an emitted node.\<close>

fun emit_children :: "nat list \<Rightarrow> nat \<Rightarrow> TrieNode list \<Rightarrow> ser_state \<Rightarrow> ser_state" where
  "emit_children path j [] st = st"
| "emit_children path j (child # cs) st =
     (let i = ser_i st;
          st' = (if node_children child = [] then
                   wr i (word_of_int (uint (node_value child) OR push_bit 9 (node_index child) OR 0x100)) st
                 else
                   (wr i (word_of_int (uint (node_value child))) st)
                     \<lparr>ser_fixup := (ser_fixup st)((path @ [j]) := i)\<rparr>)
      in emit_children path (j + 1) cs (st'\<lparr>ser_i := i + 1\<rparr>))"

text \<open>The function that \<^verbatim>\<open>serialize\<close> passes to \<^verbatim>\<open>walk\<close> for one layer.\<close>

definition emit :: "nat \<Rightarrow> TrieNode \<Rightarrow> nat list \<Rightarrow> nat \<Rightarrow> ser_state \<Rightarrow> ser_state" where
  "emit layer node path depth st =
     (if depth = layer then
        (let fixup = ser_fixup st path;
             st1 = (if fixup > 0 then
                      wr fixup ((ser_output st ! fixup)
                                  OR word_of_int (push_bit 9 (int (ser_i st) AND 0x7fffff))) st
                    else st)
         in
         if length (node_children node) > 0 then
           (let i = ser_i st1;
                st2 = (wr i (word_of_int (push_bit 8 ((node_index node + 1) AND 0xffffff)
                                     OR (int (length (node_children node)) AND 0xff))) st1)
                        \<lparr>ser_i := i + 1\<rparr>
            in emit_children path 0 (node_children node) st2)
         else st1)
      else st)"

definition measure_fn :: "TrieNode \<Rightarrow> nat list \<Rightarrow> nat \<Rightarrow> nat \<times> nat \<Rightarrow> nat \<times> nat" where
  "measure_fn node path depth = (\<lambda>(outputSize, maxDepth).
     ((if length (node_children node) > 0 then outputSize + (length (node_children node) + 1)
       else outputSize),
      max maxDepth depth))"

definition serialize :: "TrieNode \<Rightarrow> panic + 32 word list" where
  "serialize node =
     (let (outputSize, maxDepth) = walk measure_fn [] 0 node (0, 0);
          st0 = \<lparr>ser_output = replicate outputSize 0, ser_i = 0, ser_fixup = (\<lambda>_. 0),
                 ser_panic = None\<rparr>;
          st = fold (\<lambda>layer. walk (emit layer) [] 0 node) [0..<maxDepth + 1] st0
      in case ser_panic st of
           Some e \<Rightarrow> Inl e
         | None \<Rightarrow> if length (ser_output st) = ser_i st then Inr (ser_output st)
                   else Inl AssertionFailed)"

section \<open>The serialized trie (internal/serializedTrie.go)\<close>

definition rd :: "32 word list \<Rightarrow> nat \<Rightarrow> panic + 32 word" where
  "rd trie k = (if k < length trie then Inr (trie ! k) else Inl IndexOutOfRange)"

function bsearch :: "32 word list \<Rightarrow> nat \<Rightarrow> byte \<Rightarrow> nat \<Rightarrow> nat \<Rightarrow> panic + nat" where
  "bsearch trie pos char left right =
     (if left < right then
        (let mid = left + (right - left) div 2 in
         case rd trie (pos + mid) of
           Inl e \<Rightarrow> Inl e
         | Inr w \<Rightarrow>
            if (ucast (w AND 0xff) :: byte) < char then bsearch trie pos char (mid + 1) right
            else bsearch trie pos char left mid)
      else Inr left)"
  by pat_completeness auto
termination
  by (relation "measure (\<lambda>(trie, pos, char, left, right). right - left)") auto

declare bsearch.simps [simp del]

text \<open>
  The body of the loop of \<^verbatim>\<open>Lookup\<close> up to the point where \<open>trieValue\<close> holds the
  child word: \<open>Inr None\<close> is \<^verbatim>\<open>return -1\<close>.
\<close>

definition find_child :: "32 word list \<Rightarrow> nat \<Rightarrow> byte \<Rightarrow> panic + nat option" where
  "find_child trie pos0 char =
     (case rd trie pos0 of
        Inl e \<Rightarrow> Inl e
      | Inr w \<Rightarrow>
         (let trieValue = unat w; pos = pos0 + 1; childCount = trieValue AND 0xff in
          if childCount = 0 then
            (case rd trie (pos + unat char) of Inl e \<Rightarrow> Inl e | Inr w' \<Rightarrow> Inr (Some (unat w')))
          else
            (case bsearch trie pos char 0 childCount of
               Inl e \<Rightarrow> Inl e
             | Inr left \<Rightarrow>
                if left = childCount then Inr None
                else
                  (let childIndex = pos + left in
                   case rd trie childIndex of
                     Inl e \<Rightarrow> Inl e
                   | Inr w' \<Rightarrow>
                      if (ucast (w' AND 0xff) :: byte) \<noteq> char then Inr None
                      else Inr (Some (unat w'))))))"

fun lookup_loop :: "32 word list \<Rightarrow> nat \<Rightarrow> byte list \<Rightarrow> panic + int" where
  "lookup_loop trie pos [] =
     (case rd trie pos of Inl e \<Rightarrow> Inl e | Inr w \<Rightarrow> Inr (int (unat (drop_bit 8 w)) - 1))"
| "lookup_loop trie pos (char # rest) =
     (case find_child trie pos char of
        Inl e \<Rightarrow> Inl e
      | Inr None \<Rightarrow> Inr (-1)
      | Inr (Some trieValue) \<Rightarrow>
         if trieValue AND 0x100 \<noteq> 0 then
           (if rest = [] then Inr (int (drop_bit 9 trieValue)) else Inr (-1))
         else lookup_loop trie (drop_bit 9 trieValue) rest)"

definition Lookup :: "32 word list \<Rightarrow> byte list \<Rightarrow> panic + int" where
  "Lookup trie input = (if length input = 0 then Inr (-1) else lookup_loop trie 0 input)"

definition TrieLookup :: "32 word list \<Rightarrow> byte list \<Rightarrow> panic + int" where
  "TrieLookup trie input = Lookup trie input"

lemma search_loop_spec:
  shows "(\<forall>a b. a \<le> b \<longrightarrow> b < n \<longrightarrow> f a \<longrightarrow> f b) \<Longrightarrow> i \<le> j \<Longrightarrow> j \<le> n \<Longrightarrow> (\<forall>k<i. \<not> f k) \<Longrightarrow> (j < n \<longrightarrow> f j) \<Longrightarrow>
           i \<le> search_loop f i j \<and> search_loop f i j \<le> j \<and>
           (\<forall>k. k < search_loop f i j \<longrightarrow> \<not> f k) \<and> (search_loop f i j < n \<longrightarrow> f (search_loop f i j))"
proof (induction f i j rule: search_loop.induct)
  case (1 f i j)
  show ?case
  proof (cases "i < j")
    case False
    then have "search_loop f i j = i" by (subst search_loop.simps) simp
    then show ?thesis using "1.prems" False by auto
  next
    case True
    let ?h = "(i + j) div 2"
    have h: "i \<le> ?h" "?h < j" using True by auto
    show ?thesis
    proof (cases "f ?h")
      case False
      have eq: "search_loop f i j = search_loop f (?h + 1) j"
        using True False by (subst search_loop.simps) (simp add: Let_def)
      have below: "\<forall>k<?h + 1. \<not> f k"
      proof (intro allI impI)
        fix k assume "k < ?h + 1"
        then have "k \<le> ?h" by simp
        moreover have "?h < n" using h "1.prems"(3) by simp
        ultimately show "\<not> f k" using "1.prems"(1) False by blast
      qed
      have "?h + 1 \<le> search_loop f (?h + 1) j \<and> search_loop f (?h + 1) j \<le> j \<and>
           (\<forall>k. k < search_loop f (?h + 1) j \<longrightarrow> \<not> f k) \<and>
           (search_loop f (?h + 1) j < n \<longrightarrow> f (search_loop f (?h + 1) j))"
        using "1.IH"(1)[OF True refl False "1.prems"(1) _ "1.prems"(3) below "1.prems"(5)] h
        by simp
      then show ?thesis unfolding eq using h by auto
    next
      case T: True
      have eq: "search_loop f i j = search_loop f i ?h"
        using True T by (subst search_loop.simps) (simp add: Let_def)
      have "?h \<le> n" using h "1.prems"(3) by simp
      have "i \<le> search_loop f i ?h \<and> search_loop f i ?h \<le> ?h \<and>
           (\<forall>k. k < search_loop f i ?h \<longrightarrow> \<not> f k) \<and>
           (search_loop f i ?h < n \<longrightarrow> f (search_loop f i ?h))"
        using "1.IH"(2)[OF True refl _ "1.prems"(1) h(1) \<open>?h \<le> n\<close> "1.prems"(4)] T
        by simp
      then show ?thesis unfolding eq using h by auto
    qed
  qed
qed


text \<open>What the binary search over the children of a node finds.\<close>

definition child_pos :: "TrieNode list \<Rightarrow> byte \<Rightarrow> nat" where
  "child_pos cs char = sort_Search (length cs) (\<lambda>i. node_value (cs ! i) \<ge> char)"

lemma child_pos_spec:
  assumes "sorted_wrt (<) (map node_value cs)"
  shows "child_pos cs char \<le> length cs \<and>
         (\<forall>k. k < child_pos cs char \<longrightarrow> node_value (cs ! k) < char) \<and>
         (child_pos cs char < length cs \<longrightarrow> char \<le> node_value (cs ! child_pos cs char))"
proof -
  let ?f = "\<lambda>i. node_value (cs ! i) \<ge> char"
  have mono: "\<forall>a b. a \<le> b \<longrightarrow> b < length cs \<longrightarrow> ?f a \<longrightarrow> ?f b"
  proof (intro allI impI)
    fix a b assume ab: "a \<le> b" "b < length cs" "?f a"
    show "?f b"
    proof (cases "a = b")
      case True
      then show ?thesis using ab by simp
    next
      case False
      then have "a < b" using ab by simp
      then have "node_value (cs ! a) < node_value (cs ! b)"
        using assms ab(2) sorted_wrt_nth_less[of "(<)" "map node_value cs" a b] by simp
      then show ?thesis using ab(3) by simp
    qed
  qed
  have "0 \<le> search_loop ?f 0 (length cs) \<and> search_loop ?f 0 (length cs) \<le> length cs \<and>
        (\<forall>k. k < search_loop ?f 0 (length cs) \<longrightarrow> \<not> ?f k) \<and>
        (search_loop ?f 0 (length cs) < length cs \<longrightarrow> ?f (search_loop ?f 0 (length cs)))"
    by (rule search_loop_spec[OF mono]) simp_all
  then show ?thesis by (simp add: child_pos_def sort_Search_def not_le)
qed

lemma child_pos_found:
  assumes s: "sorted_wrt (<) (map node_value cs)" and k: "k < length cs" "node_value (cs ! k) = char"
  shows "child_pos cs char = k"
proof -
  let ?r = "child_pos cs char"
  have sp: "?r \<le> length cs" "\<And>j. j < ?r \<Longrightarrow> node_value (cs ! j) < char"
           "?r < length cs \<Longrightarrow> char \<le> node_value (cs ! ?r)"
    using child_pos_spec[OF s, of char] by auto
  have "\<not> k < ?r" using sp(2)[of k] k by auto
  moreover have "\<not> ?r < k"
  proof
    assume lt: "?r < k"
    then have "node_value (cs ! ?r) < node_value (cs ! k)"
      using s k(1) sorted_wrt_nth_less[of "(<)" "map node_value cs" ?r k] by simp
    then show False using sp(3) lt k by auto
  qed
  ultimately show ?thesis by simp
qed

lemma child_pos_find:
  assumes s: "sorted_wrt (<) (map node_value cs)"
  shows "(if child_pos cs char < length cs \<and> node_value (cs ! child_pos cs char) = char
          then Some (cs ! child_pos cs char) else None)
         = find (\<lambda>c. node_value c = char) cs"
proof (cases "\<exists>k<length cs. node_value (cs ! k) = char")
  case True
  then obtain k where k: "k < length cs" "node_value (cs ! k) = char" by blast
  have r: "child_pos cs char = k" using child_pos_found[OF s k] .
  have "\<forall>j<k. node_value (cs ! j) \<noteq> char"
  proof (intro allI impI)
    fix j assume "j < k"
    then have "node_value (cs ! j) < node_value (cs ! k)"
      using s k(1) sorted_wrt_nth_less[of "(<)" "map node_value cs" j k] by simp
    then show "node_value (cs ! j) \<noteq> char" using k(2) by auto
  qed
  then have "find (\<lambda>c. node_value c = char) cs = Some (cs ! k)"
    using k by (auto simp: find_Some_iff)
  then show ?thesis using r k by simp
next
  case False
  then have "find (\<lambda>c. node_value c = char) cs = None"
    by (auto simp: find_None_iff in_set_conv_nth)
  then show ?thesis using False by auto
qed

lemma lookup_Cons:
  assumes "sorted_wrt (<) (map node_value (node_children node))"
  shows "lookup node (char # token) =
           (case find (\<lambda>c. node_value c = char) (node_children node) of
              Some c \<Rightarrow> lookup c token | None \<Rightarrow> -1)"
  using child_pos_find[OF assms, of char]
  by (auto simp: Let_def child_pos_def split: option.splits if_splits)

fun wf_trie :: "TrieNode \<Rightarrow> bool" where
  "wf_trie (TrieNode v cs idx) \<longleftrightarrow>
     sorted_wrt (<) (map node_value cs) \<and> (\<forall>c \<in> set cs. wf_trie c)"

lemma node_value_insert [simp]: "node_value (insert_trie t token index) = node_value t"
  by (cases t; cases token) (auto simp: Let_def)

lemma splice_eq:
  "r < length cs \<Longrightarrow> (take (Suc r) cs @ drop r cs)[r := x] = take r cs @ [x] @ drop r cs"
  by (simp add: list_update_append take_Suc_conv_app_nth)

lemma insert_Cons:
  assumes "sorted_wrt (<) (map node_value cs)"
  shows "insert_trie (TrieNode v cs idx) (char # token) index =
           (let r = child_pos cs char in
            if r < length cs \<and> node_value (cs ! r) = char
            then TrieNode v (cs[r := insert_trie (cs ! r) token index]) idx
            else TrieNode v (take r cs @ [insert_trie (newTrieNode char) token index] @ drop r cs) idx)"
proof -
  have "child_pos cs char \<le> length cs" using child_pos_spec[OF assms] by simp
  then show ?thesis
    by (auto simp: Let_def child_pos_def[symmetric] splice_eq)
qed

declare insert_trie.simps(2) [simp del]

lemma sorted_distinct_values:
  "sorted_wrt (<) (map node_value cs) \<Longrightarrow> distinct (map node_value cs)"
  using strict_sorted_iff[of "map node_value cs"] by simp

lemma find_update:
  assumes "distinct (map node_value cs)" "r < length cs" "node_value x = node_value (cs ! r)"
  shows "find (\<lambda>c. node_value c = d) (cs[r := x])
           = (if d = node_value (cs ! r) then Some x else find (\<lambda>c. node_value c = d) cs)"
  using assms
proof (induction cs arbitrary: r)
  case Nil
  then show ?case by simp
next
  case (Cons y ys)
  show ?case
  proof (cases r)
    case 0
    then show ?thesis using Cons.prems by auto
  next
    case (Suc r')
    then have r': "r' < length ys" using Cons.prems by simp
    have ne: "node_value y \<noteq> node_value (ys ! r')"
      using Cons.prems(1) nth_mem[OF r'] by force
    have ih: "find (\<lambda>c. node_value c = d) (ys[r' := x])
           = (if d = node_value (ys ! r') then Some x else find (\<lambda>c. node_value c = d) ys)"
      using Cons.IH[of r'] Cons.prems Suc by simp
    show ?thesis using Suc ih ne by auto
  qed
qed

lemma find_splice:
  assumes "node_value x \<notin> set (map node_value cs)"
  shows "find (\<lambda>c. node_value c = d) (take r cs @ [x] @ drop r cs)
           = (if d = node_value x then Some x else find (\<lambda>c. node_value c = d) cs)"
  using assms
proof (induction cs arbitrary: r)
  case Nil
  then show ?case by simp
next
  case (Cons y ys)
  show ?case
  proof (cases r)
    case 0
    then show ?thesis using Cons.prems by auto
  next
    case (Suc r')
    have ih: "find (\<lambda>c. node_value c = d) (take r' ys @ [x] @ drop r' ys)
           = (if d = node_value x then Some x else find (\<lambda>c. node_value c = d) ys)"
      using Cons.IH[of r'] Cons.prems by simp
    show ?thesis using Suc ih Cons.prems by auto
  qed
qed

lemma not_found_notin:
  assumes s: "sorted_wrt (<) (map node_value cs)"
      and nf: "\<not> (child_pos cs char < length cs \<and> node_value (cs ! child_pos cs char) = char)"
  shows "char \<notin> set (map node_value cs)"
proof
  assume "char \<in> set (map node_value cs)"
  then obtain k where k: "k < length cs" "node_value (cs ! k) = char"
    by (auto simp: in_set_conv_nth)
  from child_pos_found[OF s k] k nf show False by simp
qed

lemma sorted_splice:
  assumes s: "sorted_wrt (<) (map node_value cs)"
      and nf: "\<not> (child_pos cs char < length cs \<and> node_value (cs ! child_pos cs char) = char)"
      and x: "node_value x = char"
  shows "sorted_wrt (<) (map node_value (take (child_pos cs char) cs @ [x] @ drop (child_pos cs char) cs))"
proof -
  let ?r = "child_pos cs char"
  have sp: "?r \<le> length cs" "\<And>j. j < ?r \<Longrightarrow> node_value (cs ! j) < char"
           "?r < length cs \<Longrightarrow> char \<le> node_value (cs ! ?r)"
    using child_pos_spec[OF s, of char] by auto
  have notin: "char \<notin> set (map node_value cs)" using not_found_notin[OF s nf] .
  have lo: "\<forall>a \<in> set (take ?r cs). node_value a < char"
    using sp by (auto simp: in_set_conv_nth)
  have hi: "\<forall>a \<in> set (drop ?r cs). char < node_value a"
  proof
    fix a assume "a \<in> set (drop ?r cs)"
    then obtain k where k: "k < length cs - ?r" "a = cs ! (?r + k)"
      by (auto simp: in_set_conv_nth)
    have rl: "?r < length cs" using k by simp
    have "node_value (cs ! ?r) \<le> node_value (cs ! (?r + k))"
    proof (cases k)
      case 0
      then show ?thesis by simp
    next
      case (Suc k')
      then have "node_value (cs ! ?r) < node_value (cs ! (?r + k))"
        using s k(1) sorted_wrt_nth_less[of "(<)" "map node_value cs" ?r "?r + k"] by simp
      then show ?thesis by simp
    qed
    then have "char \<le> node_value a" using sp(3)[OF rl] k by simp
    moreover have "a \<in> set cs" using k by simp
    then have "node_value a \<noteq> char" using notin by force
    ultimately show "char < node_value a" by simp
  qed
  have "sorted_wrt (<) (map node_value (take ?r cs))" "sorted_wrt (<) (map node_value (drop ?r cs))"
    using s by (simp_all add: sorted_wrt_take sorted_wrt_drop flip: take_map drop_map)
  moreover have "\<forall>a \<in> set (take ?r cs). \<forall>b \<in> set (drop ?r cs). node_value a < node_value b"
    using lo hi by (meson order.strict_trans)
  ultimately show ?thesis
    using lo hi x by (simp add: sorted_wrt_append)
qed

lemma wf_new [simp]: "wf_trie (newTrieNode c)"
  by (simp add: newTrieNode_def)

lemma wf_insert: "wf_trie t \<Longrightarrow> wf_trie (insert_trie t token index)"
proof (induction token arbitrary: t)
  case Nil
  then show ?case by (cases t) simp
next
  case (Cons char token)
  obtain v cs idx where t: "t = TrieNode v cs idx" by (cases t)
  have s: "sorted_wrt (<) (map node_value cs)" and w: "\<forall>c \<in> set cs. wf_trie c"
    using Cons.prems t by auto
  let ?r = "child_pos cs char"
  show ?case
  proof (cases "?r < length cs \<and> node_value (cs ! ?r) = char")
    case True
    let ?x = "insert_trie (cs ! ?r) token index"
    have "wf_trie ?x" using Cons.IH[of "cs ! ?r"] w True by simp
    moreover have "map node_value (cs[?r := ?x]) = map node_value cs"
      using True by (simp add: map_update list_update_same_conv)
    ultimately have "wf_trie (TrieNode v (cs[?r := ?x]) idx)"
      using s w by (auto dest: set_update_subset_insert[THEN subsetD])
    then show ?thesis using True t by (simp add: insert_Cons[OF s] Let_def)
  next
    case False
    let ?x = "insert_trie (newTrieNode char) token index"
    have wx: "wf_trie ?x" using Cons.IH[of "newTrieNode char"] by simp
    have vx: "node_value ?x = char" by (simp add: newTrieNode_def)
    have "sorted_wrt (<) (map node_value (take ?r cs @ [?x] @ drop ?r cs))"
      using sorted_splice[OF s False vx] .
    moreover have "\<forall>c \<in> set (take ?r cs @ [?x] @ drop ?r cs). wf_trie c"
      using w wx by (auto dest: in_set_takeD in_set_dropD)
    ultimately have "wf_trie (TrieNode v (take ?r cs @ [?x] @ drop ?r cs) idx)" by simp
    then show ?thesis using False t by (auto simp: insert_Cons[OF s] Let_def)
  qed
qed

lemma lookup_new [simp]: "lookup (newTrieNode c) key = -1"
  by (cases key) (simp_all add: newTrieNode_def sort_Search_def search_loop.simps)

lemma wf_sorted: "wf_trie t \<Longrightarrow> sorted_wrt (<) (map node_value (node_children t))"
  by (cases t) simp

lemma lookup_insert:
  "wf_trie t \<Longrightarrow> lookup (insert_trie t token index) key = (if key = token then index else lookup t key)"
proof (induction token arbitrary: t key)
  case Nil
  then show ?case by (cases t; cases key) simp_all
next
  case (Cons char token)
  obtain v cs idx where t: "t = TrieNode v cs idx" by (cases t)
  have s: "sorted_wrt (<) (map node_value cs)" and w: "\<forall>c \<in> set cs. wf_trie c"
    using Cons.prems t by auto
  let ?r = "child_pos cs char"
  let ?t' = "insert_trie t (char # token) index"
  have wt': "wf_trie ?t'" using wf_insert[OF Cons.prems] .
  show ?case
  proof (cases key)
    case Nil
    then show ?thesis using t by (auto simp: insert_Cons[OF s] Let_def)
  next
    case (Cons d k)
    have old: "lookup t (d # k) = (case find (\<lambda>c. node_value c = d) cs of
              Some c \<Rightarrow> lookup c k | None \<Rightarrow> -1)"
      using lookup_Cons[of t d k] s t by simp
    have new: "lookup ?t' (d # k) = (case find (\<lambda>c. node_value c = d) (node_children ?t') of
              Some c \<Rightarrow> lookup c k | None \<Rightarrow> -1)"
      using lookup_Cons[OF wf_sorted[OF wt'], of d k] .
    show ?thesis
    proof (cases "?r < length cs \<and> node_value (cs ! ?r) = char")
      case True
      let ?x = "insert_trie (cs ! ?r) token index"
      have ch: "node_children ?t' = cs[?r := ?x]"
        using True t by (simp add: insert_Cons[OF s] Let_def)
      have f: "find (\<lambda>c. node_value c = d) (cs[?r := ?x])
                 = (if d = char then Some ?x else find (\<lambda>c. node_value c = d) cs)"
        using find_update[OF sorted_distinct_values[OF s], of ?r ?x d] True by simp
      have fo: "find (\<lambda>c. node_value c = char) cs = Some (cs ! ?r)"
        using child_pos_find[OF s, of char] True by simp
      have ih: "lookup ?x k = (if k = token then index else lookup (cs ! ?r) k)"
        using Cons.IH[of "cs ! ?r" k] w True by simp
      show ?thesis
        unfolding \<open>key = d # k\<close> new old ch f using fo ih by auto
    next
      case False
      let ?x = "insert_trie (newTrieNode char) token index"
      have ch: "node_children ?t' = take ?r cs @ [?x] @ drop ?r cs"
        using False t by (auto simp: insert_Cons[OF s] Let_def)
      have vx: "node_value ?x = char" by (simp add: newTrieNode_def)
      have f: "find (\<lambda>c. node_value c = d) (take ?r cs @ [?x] @ drop ?r cs)
                 = (if d = char then Some ?x else find (\<lambda>c. node_value c = d) cs)"
        using find_splice[of ?x cs d ?r] not_found_notin[OF s False] vx by simp
      have fo: "find (\<lambda>c. node_value c = char) cs = None"
        using child_pos_find[OF s, of char] False by auto
      have ih: "lookup ?x k = (if k = token then index else -1)"
        using Cons.IH[of "newTrieNode char" k] by simp
      show ?thesis
        unfolding \<open>key = d # k\<close> new old ch f using fo ih by auto
    qed
  qed
qed

text \<open>
  Every index in the trie lies between \<open>-1\<close> and the bound \<open>B\<close>, and every leaf below the
  root carries an index (it is the end of an inserted token).
\<close>

fun idx_ok :: "int \<Rightarrow> TrieNode \<Rightarrow> bool" where
  "idx_ok B (TrieNode v cs idx) \<longleftrightarrow>
     -1 \<le> idx \<and> idx < B \<and>
     (\<forall>c \<in> set cs. (node_children c = [] \<longrightarrow> 0 \<le> node_index c) \<and> idx_ok B c)"

lemma idx_ok_new: "0 \<le> B \<Longrightarrow> idx_ok B (newTrieNode c)"
  by (simp add: newTrieNode_def)

lemma insert_leaf:
  assumes "wf_trie t" "node_children (insert_trie t token index) = []"
  shows "node_index (insert_trie t token index) = index"
proof (cases t)
  case (TrieNode v cs idx)
  show ?thesis
  proof (cases token)
    case Nil
    then show ?thesis using TrieNode by simp
  next
    case (Cons char tok)
    have s: "sorted_wrt (<) (map node_value cs)" using assms(1) TrieNode by simp
    have "node_children (insert_trie t token index) \<noteq> []"
      using TrieNode Cons by (auto simp: insert_Cons[OF s] Let_def)
    then show ?thesis using assms(2) by simp
  qed
qed

lemma idx_ok_insert:
  "wf_trie t \<Longrightarrow> idx_ok B t \<Longrightarrow> 0 \<le> index \<Longrightarrow> index < B \<Longrightarrow>
     idx_ok B (insert_trie t token index)"
proof (induction token arbitrary: t)
  case Nil
  then show ?case by (cases t) simp
next
  case (Cons char token)
  obtain v cs idx where t: "t = TrieNode v cs idx" by (cases t)
  have s: "sorted_wrt (<) (map node_value cs)" and w: "\<forall>c \<in> set cs. wf_trie c"
    using Cons.prems t by auto
  have ok: "-1 \<le> idx" "idx < B"
       "\<forall>c \<in> set cs. (node_children c = [] \<longrightarrow> 0 \<le> node_index c) \<and> idx_ok B c"
    using Cons.prems t by auto
  let ?r = "child_pos cs char"
  show ?case
  proof (cases "?r < length cs \<and> node_value (cs ! ?r) = char")
    case True
    let ?x = "insert_trie (cs ! ?r) token index"
    have m: "cs ! ?r \<in> set cs" using True by simp
    have x: "idx_ok B ?x" using Cons.IH[of "cs ! ?r"] w ok(3) m Cons.prems by blast
    have xl: "node_children ?x = [] \<longrightarrow> 0 \<le> node_index ?x"
      using insert_leaf[of "cs ! ?r" token index] w m Cons.prems(3) by auto
    have "\<forall>c \<in> set (cs[?r := ?x]). (node_children c = [] \<longrightarrow> 0 \<le> node_index c) \<and> idx_ok B c"
      using ok(3) x xl by (auto dest: set_update_subset_insert[THEN subsetD])
    then show ?thesis using True t ok by (simp add: insert_Cons[OF s] Let_def)
  next
    case False
    let ?x = "insert_trie (newTrieNode char) token index"
    have x: "idx_ok B ?x"
      using Cons.IH[of "newTrieNode char"] idx_ok_new[of B char] Cons.prems by simp
    have xl: "node_children ?x = [] \<longrightarrow> 0 \<le> node_index ?x"
      using insert_leaf[of "newTrieNode char" token index] Cons.prems(3) by auto
    have "\<forall>c \<in> set (take ?r cs @ [?x] @ drop ?r cs).
            (node_children c = [] \<longrightarrow> 0 \<le> node_index c) \<and> idx_ok B c"
      using ok(3) x xl by (auto dest: in_set_takeD in_set_dropD)
    then show ?thesis using False t ok by (auto simp: insert_Cons[OF s] Let_def)
  qed
qed

text \<open>The index the trie holds for a key after the tokens have been inserted in order.\<close>

fun find_last :: "byte list list \<Rightarrow> byte list \<Rightarrow> nat \<Rightarrow> int \<Rightarrow> int" where
  "find_last [] key n acc = acc"
| "find_last (t # ts) key n acc = find_last ts key (n + 1) (if t = key then int n else acc)"

lemma fold_insert:
  assumes "wf_trie t" "idx_ok B t" "int (n + length tokens) \<le> B"
  defines "t' \<equiv> fold (\<lambda>(index, token) root. insert_trie root token (int index)) (enumerate n tokens) t"
  shows "wf_trie t' \<and> idx_ok B t' \<and> (\<forall>key. lookup t' key = find_last tokens key n (lookup t key))
          \<and> (node_children t \<noteq> [] \<or> (\<exists>tok \<in> set tokens. tok \<noteq> []) \<longleftrightarrow> node_children t' \<noteq> [])"
  unfolding t'_def using assms(1-3)
proof (induction tokens arbitrary: t n)
  case Nil
  then show ?case by simp
next
  case (Cons tok tokens)
  let ?t1 = "insert_trie t tok (int n)"
  have w1: "wf_trie ?t1" using wf_insert[OF Cons.prems(1)] .
  have o1: "idx_ok B ?t1" using idx_ok_insert[OF Cons.prems(1,2), of "int n" tok] Cons.prems(3) by simp
  have l1: "\<And>key. lookup ?t1 key = (if key = tok then int n else lookup t key)"
    using lookup_insert[OF Cons.prems(1)] by simp
  have c1: "node_children ?t1 \<noteq> [] \<longleftrightarrow> node_children t \<noteq> [] \<or> tok \<noteq> []"
  proof (cases t)
    case (TrieNode v cs idx)
    have s: "sorted_wrt (<) (map node_value cs)" using Cons.prems(1) TrieNode by simp
    show ?thesis using TrieNode by (cases tok) (auto simp: insert_Cons[OF s] Let_def)
  qed
  have "int (Suc n + length tokens) \<le> B" using Cons.prems(3) by simp
  from Cons.IH[OF w1 o1 this] show ?case using l1 c1 by auto
qed

lemma BuildTrie_props:
  assumes "int (length tokens) \<le> B"
  shows "wf_trie (BuildTrie tokens) \<and> idx_ok B (BuildTrie tokens)
         \<and> (\<forall>key. lookup (BuildTrie tokens) key = find_last tokens key 0 (-1))
         \<and> ((\<exists>tok \<in> set tokens. tok \<noteq> []) \<longleftrightarrow> node_children (BuildTrie tokens) \<noteq> [])"
proof -
  have "0 \<le> B" using assms by simp
  then show ?thesis
    using fold_insert[of "newTrieNode 0" B 0 tokens] assms idx_ok_new[of B 0]
    by (simp add: BuildTrie_def newTrieNode_def[of 0, THEN arg_cong[of _ _ node_children]])
qed

lemma find_last_notin: "key \<notin> set ts \<Longrightarrow> find_last ts key n acc = acc"
  by (induction ts arbitrary: n acc) auto

lemma find_last_distinct:
  "distinct ts \<Longrightarrow> i < length ts \<Longrightarrow> find_last ts (ts ! i) n acc = int (n + i)"
proof (induction ts arbitrary: n acc i)
  case Nil
  then show ?case by simp
next
  case (Cons t ts)
  show ?case
  proof (cases i)
    case 0
    then show ?thesis using Cons.prems find_last_notin[of t ts] by simp
  next
    case (Suc i')
    then have "ts ! i' \<noteq> t" using Cons.prems by auto
    then show ?thesis using Suc Cons.IH[of i' "n + 1"] Cons.prems by simp
  qed
qed

text \<open>The words that \<^verbatim>\<open>serialize\<close> writes.\<close>

definition hdr :: "TrieNode \<Rightarrow> 32 word" where
  "hdr node = word_of_int (push_bit 8 ((node_index node + 1) AND 0xffffff)
                 OR (int (length (node_children node)) AND 0xff))"

definition leafw :: "TrieNode \<Rightarrow> 32 word" where
  "leafw child = word_of_int (uint (node_value child) OR push_bit 9 (node_index child) OR 0x100)"

definition valw :: "TrieNode \<Rightarrow> 32 word" where
  "valw child = word_of_int (uint (node_value child))"

definition ptr :: "nat \<Rightarrow> 32 word" where
  "ptr i = word_of_int (push_bit 9 (int i AND 0x7fffff))"

definition childw :: "TrieNode \<Rightarrow> 32 word" where
  "childw child = (if node_children child = [] then leafw child else valw child)"

lemma emit_children_spec:
  "ser_i st + length cs \<le> length (ser_output st) \<Longrightarrow>
   ser_i (emit_children p j0 cs st) = ser_i st + length cs \<and>
   length (ser_output (emit_children p j0 cs st)) = length (ser_output st) \<and>
   (\<forall>k. k < length cs \<longrightarrow> ser_output (emit_children p j0 cs st) ! (ser_i st + k) = childw (cs ! k)) \<and>
   (\<forall>a. a < ser_i st \<or> ser_i st + length cs \<le> a \<longrightarrow>
        ser_output (emit_children p j0 cs st) ! a = ser_output st ! a) \<and>
   (\<forall>k. k < length cs \<and> node_children (cs ! k) \<noteq> [] \<longrightarrow>
        ser_fixup (emit_children p j0 cs st) (p @ [j0 + k]) = ser_i st + k) \<and>
   (\<forall>q. (\<forall>k. k < length cs \<and> node_children (cs ! k) \<noteq> [] \<longrightarrow> q \<noteq> p @ [j0 + k]) \<longrightarrow>
        ser_fixup (emit_children p j0 cs st) q = ser_fixup st q) \<and>
   ser_panic (emit_children p j0 cs st) = ser_panic st"
proof (induction cs arbitrary: j0 st)
  case Nil
  then show ?case by simp
next
  case (Cons c cs)
  let ?i = "ser_i st"
  let ?st1 = "(if node_children c = [] then
                   st\<lparr>ser_output := (ser_output st)[?i := leafw c]\<rparr>
                 else
                   st\<lparr>ser_output := (ser_output st)[?i := valw c],
                       ser_fixup := (ser_fixup st)((p @ [j0]) := ?i)\<rparr>)\<lparr>ser_i := ?i + 1\<rparr>"
  have ilt: "?i < length (ser_output st)" using Cons.prems by simp
  have step: "emit_children p j0 (c # cs) st = emit_children p (j0 + 1) cs ?st1"
    using ilt by (simp add: Let_def leafw_def valw_def wr_def)
  have pn1: "ser_panic ?st1 = ser_panic st" by simp
  have i1: "ser_i ?st1 = ?i + 1" by simp
  have len1: "length (ser_output ?st1) = length (ser_output st)" by simp
  have out1: "ser_output ?st1 = (ser_output st)[?i := childw c]" by (simp add: childw_def)
  have fx1: "ser_fixup ?st1 = (if node_children c = [] then ser_fixup st
                               else (ser_fixup st)((p @ [j0]) := ?i))" by simp
  have room: "ser_i ?st1 + length cs \<le> length (ser_output ?st1)"
    using Cons.prems by simp
  note ih = Cons.IH[OF room, of "j0 + 1"]
  show ?case
    unfolding step
  proof (intro conjI allI impI)
    show "ser_i (emit_children p (j0 + 1) cs ?st1) = ser_i st + length (c # cs)"
      using ih i1 by simp
    show "length (ser_output (emit_children p (j0 + 1) cs ?st1)) = length (ser_output st)"
      using ih len1 by simp
    show "ser_panic (emit_children p (j0 + 1) cs ?st1) = ser_panic st"
      using ih pn1 by simp
  next
    fix k assume k: "k < length (c # cs)"
    show "ser_output (emit_children p (j0 + 1) cs ?st1) ! (ser_i st + k) = childw ((c # cs) ! k)"
    proof (cases k)
      case 0
      have "ser_output (emit_children p (j0 + 1) cs ?st1) ! ?i = ser_output ?st1 ! ?i"
        using ih i1 by simp
      then show ?thesis using 0 out1 ilt by simp
    next
      case (Suc k')
      then have "ser_output (emit_children p (j0 + 1) cs ?st1) ! (ser_i ?st1 + k') = childw (cs ! k')"
        using ih k by simp
      then show ?thesis using Suc i1 by simp
    qed
  next
    fix a assume a: "a < ser_i st \<or> ser_i st + length (c # cs) \<le> a"
    then have "ser_output (emit_children p (j0 + 1) cs ?st1) ! a = ser_output ?st1 ! a"
      using ih i1 by auto
    then show "ser_output (emit_children p (j0 + 1) cs ?st1) ! a = ser_output st ! a"
      using a out1 by auto
  next
    fix k assume k: "k < length (c # cs) \<and> node_children ((c # cs) ! k) \<noteq> []"
    show "ser_fixup (emit_children p (j0 + 1) cs ?st1) (p @ [j0 + k]) = ser_i st + k"
    proof (cases k)
      case 0
      have "ser_fixup (emit_children p (j0 + 1) cs ?st1) (p @ [j0]) = ser_fixup ?st1 (p @ [j0])"
        using ih by simp
      then show ?thesis using 0 k fx1 by simp
    next
      case (Suc k')
      then have "ser_fixup (emit_children p (j0 + 1) cs ?st1) (p @ [j0 + 1 + k']) = ser_i ?st1 + k'"
        using ih k by simp
      then show ?thesis using Suc i1 by simp
    qed
  next
    fix q assume q: "\<forall>k. k < length (c # cs) \<and> node_children ((c # cs) ! k) \<noteq> [] \<longrightarrow> q \<noteq> p @ [j0 + k]"
    have "\<forall>k. k < length cs \<and> node_children (cs ! k) \<noteq> [] \<longrightarrow> q \<noteq> p @ [j0 + 1 + k]"
    proof (intro allI impI)
      fix k assume "k < length cs \<and> node_children (cs ! k) \<noteq> []"
      then show "q \<noteq> p @ [j0 + 1 + k]" using q[rule_format, of "Suc k"] by simp
    qed
    then have "ser_fixup (emit_children p (j0 + 1) cs ?st1) q = ser_fixup ?st1 q"
      using ih by simp
    moreover have "ser_fixup ?st1 q = ser_fixup st q"
      using q[rule_format, of 0] fx1 by auto
    ultimately show "ser_fixup (emit_children p (j0 + 1) cs ?st1) q = ser_fixup st q" by simp
  qed
qed

text \<open>One call of the function of a layer on a node of that layer.\<close>

definition emit_node :: "nat list \<times> TrieNode \<Rightarrow> ser_state \<Rightarrow> ser_state" where
  "emit_node e st = emit (length (fst e)) (snd e) (fst e) (length (fst e)) st"

lemma emit_layer:
  "d = length p \<Longrightarrow> emit L n p d st = (if d = L then emit_node (p, n) st else st)"
  by (simp add: emit_def emit_node_def)

text \<open>The nodes \<open>k\<close> levels below a node, from left to right, each with its path.\<close>

fun levelp :: "nat \<Rightarrow> nat list \<Rightarrow> TrieNode \<Rightarrow> (nat list \<times> TrieNode) list"
  and levelp_children :: "nat \<Rightarrow> nat list \<Rightarrow> nat \<Rightarrow> TrieNode list \<Rightarrow> (nat list \<times> TrieNode) list"
where
  "levelp 0 p n = [(p, n)]"
| "levelp (Suc k) p (TrieNode v cs idx) = levelp_children k p 0 cs"
| "levelp_children k p j [] = []"
| "levelp_children k p j (c # cs) = levelp k (p @ [j]) c @ levelp_children k p (j + 1) cs"

lemma walk_emit:
  "d = length p \<Longrightarrow>
     walk (emit L) p d n st = (if d \<le> L then fold emit_node (levelp (L - d) p n) st else st)"
  "d = length p \<Longrightarrow>
     walk_children (emit L) p d j cs st
       = (if d < L then fold emit_node (levelp_children (L - d - 1) p j cs) st else st)"
proof (induction "emit L" p d n st and "emit L" p d j cs st rule: walk_walk_children.induct)
  case (1 p d v cs idx st)
  let ?n = "TrieNode v cs idx"
  show ?case
  proof (cases "d = L")
    case True
    then show ?thesis using 1 by (simp add: emit_layer)
  next
    case False
    show ?thesis
    proof (cases "d < L")
      case True
      then obtain k where k: "L - d = Suc k" by (cases "L - d") auto
      then have "k = L - d - 1" by simp
      then show ?thesis using 1 True False k by (simp add: emit_layer)
    next
      case F: False
      then show ?thesis using 1 False by (simp add: emit_layer)
    qed
  qed
next
  case (2 p d j st)
  then show ?case by simp
next
  case (3 p d j child cs st)
  have a: "walk (emit L) (p @ [j]) (d + 1) child st
             = (if d + 1 \<le> L then fold emit_node (levelp (L - (d + 1)) (p @ [j]) child) st else st)"
    using 3 by simp
  let ?st' = "walk (emit L) (p @ [j]) (d + 1) child st"
  have b: "walk_children (emit L) p d (j + 1) cs ?st'
             = (if d < L then fold emit_node (levelp_children (L - d - 1) p (j + 1) cs) ?st' else ?st')"
    using 3 by simp
  have "walk_children (emit L) p d j (child # cs) st = walk_children (emit L) p d (j + 1) cs ?st'"
    by simp
  also have "\<dots> = (if d < L then fold emit_node (levelp_children (L - d - 1) p (j + 1) cs) ?st' else ?st')"
    by (rule b)
  also have "\<dots> = (if d < L then fold emit_node (levelp_children (L - d - 1) p j (child # cs)) st else st)"
    unfolding a by (auto simp: Suc_le_eq)
  finally show ?case .
qed

definition bsize :: "TrieNode \<Rightarrow> nat" where
  "bsize n = (if node_children n = [] then 0 else length (node_children n) + 1)"

definition total :: "(nat list \<times> TrieNode) list \<Rightarrow> nat" where
  "total es = sum_list (map (\<lambda>e. bsize (snd e)) es)"

definition off_of :: "(nat list \<times> TrieNode) list \<Rightarrow> nat list \<Rightarrow> nat" where
  "off_of es p = total (takeWhile (\<lambda>e. fst e \<noteq> p) es)"

lemma total_simps [simp]:
  "total [] = 0" "total (e # es) = bsize (snd e) + total es" "total (es @ es') = total es + total es'"
  by (simp_all add: total_def)

lemma off_of_append_in: "p \<in> fst ` set es \<Longrightarrow> off_of (es @ es') p = off_of es p"
  by (auto simp: off_of_def takeWhile_append1)

lemma off_of_append_notin:
  assumes "p \<notin> fst ` set es"
  shows "off_of (es @ es') p = total es + off_of es' p"
proof -
  have "\<forall>e\<in>set es. fst e \<noteq> p" using assms by auto
  then have "takeWhile (\<lambda>e. fst e \<noteq> p) (es @ es') = es @ takeWhile (\<lambda>e. fst e \<noteq> p) es'"
    by (intro takeWhile_append2) simp
  then show ?thesis by (simp add: off_of_def)
qed

lemma off_of_last: "p \<notin> fst ` set es \<Longrightarrow> off_of (es @ [(p, n)]) p = total es"
  by (simp add: off_of_append_notin) (simp add: off_of_def)

lemma block_le_total:
  "(p, n) \<in> set es \<Longrightarrow> distinct (map fst es) \<Longrightarrow> off_of es p + bsize n \<le> total es"
proof (induction es)
  case Nil
  then show ?case by simp
next
  case (Cons e es)
  show ?case
  proof (cases "fst e = p")
    case True
    then have "e = (p, n)" using Cons.prems by (cases e) force
    then show ?thesis by (simp add: off_of_def)
  next
    case False
    then have "(p, n) \<in> set es" using Cons.prems by auto
    then have "off_of es p + bsize n \<le> total es" using Cons by simp
    then show ?thesis using False by (simp add: off_of_def)
  qed
qed

lemma block_before:
  assumes "distinct (map fst (es @ es'))" "(p, n) \<in> set es" "q \<notin> fst ` set es"
  shows "off_of (es @ es') p + bsize n \<le> off_of (es @ es') q"
proof -
  have "off_of (es @ es') p = off_of es p"
    using assms(2) by (intro off_of_append_in) force
  moreover have "off_of (es @ es') q = total es + off_of es' q"
    using assms(3) by (rule off_of_append_notin)
  moreover have "off_of es p + bsize n \<le> total es"
    using assms(1,2) by (intro block_le_total) auto
  ultimately show ?thesis by simp
qed

lemma block_disjoint:
  assumes d: "distinct (map fst es)" and a: "(p, n) \<in> set es" and b: "(q, m) \<in> set es" and ne: "p \<noteq> q"
  shows "off_of es p + bsize n \<le> off_of es q \<or> off_of es q + bsize m \<le> off_of es p"
  using d a b
proof (induction es)
  case Nil
  then show ?case by simp
next
  case (Cons e es)
  show ?case
  proof (cases "fst e = p")
    case True
    then have e: "e = (p, n)" using Cons.prems by (cases e) force
    then have "(q, m) \<in> set es" using Cons.prems ne by auto
    then show ?thesis using e ne by (simp add: off_of_def)
  next
    case False
    show ?thesis
    proof (cases "fst e = q")
      case True
      then have e: "e = (q, m)" using Cons.prems by (cases e) force
      then show ?thesis using ne by (simp add: off_of_def)
    next
      case F: False
      then have "(p, n) \<in> set es" "(q, m) \<in> set es" using Cons.prems False by auto
      then have "off_of es p + bsize n \<le> off_of es q \<or> off_of es q + bsize m \<le> off_of es p"
        using Cons by simp
      then show ?thesis using False F by (simp add: off_of_def)
    qed
  qed
qed

lemma emit_node_spec:
  fixes p :: "nat list" and n :: TrieNode and st :: ser_state
  assumes room: "ser_i st + bsize n \<le> length (ser_output st)"
      and fxlt: "ser_fixup st p < length (ser_output st) \<or> ser_fixup st p = 0"
  defines "st' \<equiv> emit_node (p, n) st"
  defines "out1 \<equiv> (if ser_fixup st p > 0
                    then (ser_output st)[ser_fixup st p := ser_output st ! ser_fixup st p OR ptr (ser_i st)]
                    else ser_output st)"
  shows "ser_i st' = ser_i st + bsize n \<and>
    length (ser_output st') = length (ser_output st) \<and>
    (\<forall>a. a < ser_i st \<longrightarrow> ser_output st' ! a = out1 ! a) \<and>
    (node_children n \<noteq> [] \<longrightarrow>
     ser_output st' ! ser_i st = hdr n \<and>
     (\<forall>k. k < length (node_children n) \<longrightarrow>
          ser_output st' ! (ser_i st + 1 + k) = childw (node_children n ! k)) \<and>
     (\<forall>k. k < length (node_children n) \<and> node_children (node_children n ! k) \<noteq> [] \<longrightarrow>
          ser_fixup st' (p @ [k]) = ser_i st + 1 + k)) \<and>
    (\<forall>q. (\<forall>k. k < length (node_children n) \<and> node_children (node_children n ! k) \<noteq> [] \<longrightarrow>
              q \<noteq> p @ [k]) \<longrightarrow>
         ser_fixup st' q = ser_fixup st q) \<and>
    ser_panic st' = ser_panic st"
proof -
  let ?i = "ser_i st"
  let ?cs = "node_children n"
  define st1 where "st1 = (if ser_fixup st p > 0 then st\<lparr>ser_output := out1\<rparr> else st)"
  have st1: "ser_output st1 = out1" "ser_i st1 = ?i" "ser_fixup st1 = ser_fixup st"
    "ser_panic st1 = ser_panic st"
    by (auto simp: st1_def out1_def)
  have w1: "(if 0 < ser_fixup st p
             then wr (ser_fixup st p) (ser_output st ! ser_fixup st p OR ptr (ser_i st)) st
             else st) = st1"
    using fxlt by (auto simp: st1_def out1_def wr_def)
  have len1: "length out1 = length (ser_output st)" by (simp add: out1_def)
  show ?thesis
  proof (cases "?cs = []")
    case True
    have "st' = st1"
      unfolding st'_def emit_node_def emit_def Let_def ptr_def[symmetric] hdr_def[symmetric]
        fst_conv snd_conv w1
      using True by simp
    then show ?thesis
      using True st1 len1 by (simp add: bsize_def)
  next
    case False
    define st2 where "st2 = st1\<lparr>ser_output := (ser_output st1)[?i := hdr n], ser_i := ?i + 1\<rparr>"
    have ilt1: "?i < length (ser_output st1)" using room False by (simp add: st1 len1 bsize_def)
    have w2: "(wr (ser_i st1) (hdr n) st1)\<lparr>ser_i := ser_i st1 + 1\<rparr> = st2"
      using ilt1 by (simp add: wr_def st2_def st1)
    have eq: "st' = emit_children p 0 ?cs st2"
      unfolding st'_def emit_node_def emit_def Let_def ptr_def[symmetric] hdr_def[symmetric]
        fst_conv snd_conv w1 w2
      using False by simp
    have st2: "ser_output st2 = out1[?i := hdr n]" "ser_i st2 = ?i + 1" "ser_fixup st2 = ser_fixup st"
      "ser_panic st2 = ser_panic st"
      by (simp_all add: st2_def st1)
    have room2: "ser_i st2 + length ?cs \<le> length (ser_output st2)"
      using room False by (simp add: st2 len1 bsize_def)
    note sp = emit_children_spec[OF room2, of p 0, folded eq]
    have ilt: "?i < length out1" using room False by (simp add: len1 bsize_def)
    have h: "ser_output st' ! ?i = hdr n"
    proof -
      have "ser_output st' ! ?i = ser_output st2 ! ?i" using sp by (simp add: st2)
      then show ?thesis using ilt by (simp add: st2)
    qed
    have lo: "\<forall>a. a < ?i \<longrightarrow> ser_output st' ! a = out1 ! a"
    proof (intro allI impI)
      fix a assume "a < ?i"
      then have "ser_output st' ! a = ser_output st2 ! a" using sp by (simp add: st2)
      then show "ser_output st' ! a = out1 ! a" using \<open>a < ?i\<close> by (simp add: st2)
    qed
    show ?thesis
      using sp h lo False by (simp add: st2 len1 bsize_def)
  qed
qed

definition cellw :: "(nat list \<times> TrieNode) list \<Rightarrow> nat list \<Rightarrow> TrieNode \<Rightarrow> 32 word" where
  "cellw es q c =
     (if node_children c = [] then leafw c
      else if q \<in> fst ` set es then valw c OR ptr (off_of es q) else valw c)"

definition ser_inv :: "(nat list \<times> TrieNode) list \<Rightarrow> ser_state \<Rightarrow> bool" where
  "ser_inv es st \<longleftrightarrow>
     ser_i st = total es \<and>
     (\<forall>p n. (p, n) \<in> set es \<and> node_children n \<noteq> [] \<longrightarrow>
        ser_output st ! off_of es p = hdr n \<and>
        (\<forall>k. k < length (node_children n) \<longrightarrow>
           ser_output st ! (off_of es p + 1 + k) = cellw es (p @ [k]) (node_children n ! k) \<and>
           (node_children (node_children n ! k) \<noteq> [] \<longrightarrow>
              ser_fixup st (p @ [k]) = off_of es p + 1 + k))) \<and>
     (\<forall>q. ser_fixup st q \<noteq> 0 \<longrightarrow>
        (\<exists>p n k. (p, n) \<in> set es \<and> k < length (node_children n) \<and> q = p @ [k] \<and>
                 node_children (node_children n ! k) \<noteq> []))"

lemma cellw_append: "q' \<noteq> q \<Longrightarrow> cellw (es @ [(q, m)]) q' c = cellw es q' c"
  by (auto simp: cellw_def off_of_append_in)

lemma cellw_new:
  "q \<notin> fst ` set es \<Longrightarrow> node_children c \<noteq> [] \<Longrightarrow> cellw (es @ [(q, m)]) q c = valw c OR ptr (total es)"
  by (simp add: cellw_def off_of_last)

lemma cellw_leaf: "node_children c = [] \<Longrightarrow> cellw es q c = leafw c"
  by (simp add: cellw_def)

lemma cellw_fresh: "q \<notin> fst ` set es \<Longrightarrow> cellw es q c = childw c"
  by (simp add: cellw_def childw_def)

lemma bsize_nonleaf: "node_children n \<noteq> [] \<Longrightarrow> bsize n = length (node_children n) + 1"
  by (simp add: bsize_def)

lemma ser_inv_i: "ser_inv es st \<Longrightarrow> ser_i st = total es"
  by (simp add: ser_inv_def)

lemma ser_inv_hdr:
  "ser_inv es st \<Longrightarrow> (p, n) \<in> set es \<Longrightarrow> node_children n \<noteq> [] \<Longrightarrow>
   ser_output st ! off_of es p = hdr n"
  unfolding ser_inv_def by blast

lemma ser_inv_cell:
  assumes "ser_inv es st" "(p, n) \<in> set es" "k < length (node_children n)"
  shows "ser_output st ! (off_of es p + 1 + k) = cellw es (p @ [k]) (node_children n ! k)"
proof -
  have "node_children n \<noteq> []" using assms(3) by auto
  then show ?thesis using assms unfolding ser_inv_def by blast
qed

lemma ser_inv_fix:
  assumes "ser_inv es st" "(p, n) \<in> set es" "k < length (node_children n)"
    "node_children (node_children n ! k) \<noteq> []"
  shows "ser_fixup st (p @ [k]) = off_of es p + 1 + k"
proof -
  have "node_children n \<noteq> []" using assms(3) by auto
  then show ?thesis using assms unfolding ser_inv_def by blast
qed

lemma ser_inv_fix_src:
  "ser_inv es st \<Longrightarrow> ser_fixup st q \<noteq> 0 \<Longrightarrow>
   \<exists>p n k. (p, n) \<in> set es \<and> k < length (node_children n) \<and> q = p @ [k] \<and>
           node_children (node_children n ! k) \<noteq> []"
  unfolding ser_inv_def by blast

text \<open>The cell a pending fixup points to, and the cells it leaves alone.\<close>

lemma cell_addr_cases:
  assumes d: "distinct (map fst es)"
    and a: "(p, n) \<in> set es" "k < length (node_children n)"
    and b: "(p0, n0) \<in> set es" "k0 < length (node_children n0)"
    and ne: "p @ [k] \<noteq> p0 @ [k0]"
  shows "off_of es p + 1 + k \<noteq> off_of es p0 + 1 + k0"
proof (cases "p = p0")
  case True
  then show ?thesis using ne by simp
next
  case False
  have "bsize n = length (node_children n) + 1" "bsize n0 = length (node_children n0) + 1"
    using a(2) b(2) by (auto simp: bsize_def)
  then show ?thesis using block_disjoint[OF d a(1) b(1) False] a(2) b(2) by auto
qed

lemma hdr_addr_cases:
  assumes d: "distinct (map fst es)"
    and a: "(p, n) \<in> set es" "node_children n \<noteq> []"
    and b: "(p0, n0) \<in> set es" "k0 < length (node_children n0)"
  shows "off_of es p \<noteq> off_of es p0 + 1 + k0"
proof (cases "p = p0")
  case True
  then show ?thesis by simp
next
  case False
  have "bsize n = length (node_children n) + 1" "bsize n0 = length (node_children n0) + 1"
    using a(2) b(2) by (auto simp: bsize_def)
  then show ?thesis using block_disjoint[OF d a(1) b(1) False] a(2) b(2) by auto
qed

lemma cell_lt_total:
  assumes d: "distinct (map fst es)" and a: "(p, n) \<in> set es" "k < length (node_children n)"
  shows "off_of es p + 1 + k < total es"
proof -
  have "bsize n = length (node_children n) + 1" using a(2) by (auto simp: bsize_def)
  then show ?thesis using block_le_total[OF a(1) d] a(2) by simp
qed

lemma hdr_lt_total:
  assumes d: "distinct (map fst es)" and a: "(p, n) \<in> set es" "node_children n \<noteq> []"
  shows "off_of es p < total es"
  using block_le_total[OF a(1) d] a(2) by (simp add: bsize_def)

lemma patch_cells:
  fixes es :: "(nat list \<times> TrieNode) list" and st :: ser_state and q :: "nat list"
  assumes inv: "ser_inv es st" and d: "distinct (map fst es)" and qn: "q \<notin> fst ` set es"
    and room: "total es \<le> length (ser_output st)"
  defines "out1 \<equiv> (if ser_fixup st q > 0
                    then (ser_output st)[ser_fixup st q := ser_output st ! ser_fixup st q OR ptr (ser_i st)]
                    else ser_output st)"
  assumes pn: "(p, n) \<in> set es"
  shows "node_children n \<noteq> [] \<longrightarrow> out1 ! off_of es p = hdr n"
    and "k < length (node_children n) \<longrightarrow>
           out1 ! (off_of es p + 1 + k) = cellw (es @ [(q, m)]) (p @ [k]) (node_children n ! k)"
proof -
  show "node_children n \<noteq> [] \<longrightarrow> out1 ! off_of es p = hdr n"
  proof
    assume nl: "node_children n \<noteq> []"
    show "out1 ! off_of es p = hdr n"
    proof (cases "ser_fixup st q = 0")
      case True
      then show ?thesis using ser_inv_hdr[OF inv pn nl] by (simp add: out1_def)
    next
      case False
      then obtain p0 n0 k0 where s: "(p0, n0) \<in> set es" "k0 < length (node_children n0)"
        "q = p0 @ [k0]" "node_children (node_children n0 ! k0) \<noteq> []"
        using ser_inv_fix_src[OF inv] by blast
      have fx: "ser_fixup st q = off_of es p0 + 1 + k0"
        using ser_inv_fix[OF inv s(1,2,4)] s(3) by simp
      have "off_of es p \<noteq> off_of es p0 + 1 + k0" by (rule hdr_addr_cases[OF d pn nl s(1,2)])
      then show ?thesis using ser_inv_hdr[OF inv pn nl] by (simp add: out1_def fx)
    qed
  qed
  show "k < length (node_children n) \<longrightarrow>
           out1 ! (off_of es p + 1 + k) = cellw (es @ [(q, m)]) (p @ [k]) (node_children n ! k)"
  proof
    assume k: "k < length (node_children n)"
    let ?c = "node_children n ! k"
    let ?a = "off_of es p + 1 + k"
    have old: "ser_output st ! ?a = cellw es (p @ [k]) ?c" by (rule ser_inv_cell[OF inv pn k])
    show "out1 ! ?a = cellw (es @ [(q, m)]) (p @ [k]) ?c"
    proof (cases "ser_fixup st q = 0")
      case True
      have o: "out1 = ser_output st" using True by (simp add: out1_def)
      show ?thesis
      proof (cases "p @ [k] = q")
        case eq: True
        have "node_children ?c = []"
        proof (rule ccontr)
          assume "node_children ?c \<noteq> []"
          then have "ser_fixup st (p @ [k]) = ?a" by (rule ser_inv_fix[OF inv pn k])
          then show False using True eq by simp
        qed
        then show ?thesis using old o by (simp add: cellw_leaf)
      next
        case False
        then show ?thesis using old o by (simp add: cellw_append)
      qed
    next
      case False
      then obtain p0 n0 k0 where s: "(p0, n0) \<in> set es" "k0 < length (node_children n0)"
        "q = p0 @ [k0]" "node_children (node_children n0 ! k0) \<noteq> []"
        using ser_inv_fix_src[OF inv] by blast
      have fx: "ser_fixup st q = off_of es p0 + 1 + k0"
        using ser_inv_fix[OF inv s(1,2,4)] s(3) by simp
      have o: "out1 = (ser_output st)[ser_fixup st q := ser_output st ! ser_fixup st q OR ptr (total es)]"
        using False by (simp add: out1_def ser_inv_i[OF inv])
      show ?thesis
      proof (cases "p @ [k] = q")
        case eq: True
        then have pk: "p = p0" "k = k0" using s(3) by auto
        have "n = n0" using d pn s(1) pk(1) by (meson eq_key_imp_eq_value)
        then have nl: "node_children ?c \<noteq> []" using s(4) pk by simp
        have a: "ser_fixup st q = ?a" using fx pk by simp
        have "?a < length (ser_output st)" using cell_lt_total[OF d pn k] room by simp
        then have "out1 ! ?a = ser_output st ! ?a OR ptr (total es)" by (simp add: o a)
        also have "\<dots> = valw ?c OR ptr (total es)"
          using old qn nl eq by (simp add: cellw_def)
        finally show ?thesis using eq cellw_new[OF qn nl, of m] by simp
      next
        case ne: False
        then have "?a \<noteq> off_of es p0 + 1 + k0"
          using cell_addr_cases[OF d pn k s(1,2)] s(3) by simp
        then have "out1 ! ?a = ser_output st ! ?a" by (simp add: o fx)
        then show ?thesis using old ne by (simp add: cellw_append)
      qed
    qed
  qed
qed

lemma ser_inv_step:
  fixes es :: "(nat list \<times> TrieNode) list" and st :: ser_state and q :: "nat list"
  assumes inv: "ser_inv es st" and d: "distinct (map fst es)" and qn: "q \<notin> fst ` set es"
    and len: "\<forall>p\<in>fst ` set es. length p \<le> length q"
    and room: "total es + bsize m \<le> length (ser_output st)"
  shows "ser_inv (es @ [(q, m)]) (emit_node (q, m) st) \<and>
         length (ser_output (emit_node (q, m) st)) = length (ser_output st) \<and>
         ser_panic (emit_node (q, m) st) = ser_panic st"
proof -
  define st' where "st' = emit_node (q, m) st"
  define out1 where "out1 = (if ser_fixup st q > 0
                    then (ser_output st)[ser_fixup st q := ser_output st ! ser_fixup st q OR ptr (ser_i st)]
                    else ser_output st)"
  let ?es = "es @ [(q, m)]"
  let ?i = "total es"
  have i: "ser_i st = ?i" by (rule ser_inv_i[OF inv])
  have room': "ser_i st + bsize m \<le> length (ser_output st)" using room i by simp
  have room0: "total es \<le> length (ser_output st)" using room by simp
  have fxlt: "ser_fixup st q < length (ser_output st) \<or> ser_fixup st q = 0"
  proof (cases "ser_fixup st q = 0")
    case True
    then show ?thesis by simp
  next
    case False
    then obtain p0 n0 k0 where s: "(p0, n0) \<in> set es" "k0 < length (node_children n0)"
      "q = p0 @ [k0]" "node_children (node_children n0 ! k0) \<noteq> []"
      using ser_inv_fix_src[OF inv] by blast
    have "ser_fixup st q = off_of es p0 + 1 + k0"
      using ser_inv_fix[OF inv s(1,2,4)] s(3) by simp
    then show ?thesis using cell_lt_total[OF d s(1,2)] room0 by simp
  qed
  note sp = emit_node_spec[OF room' fxlt, folded st'_def out1_def, unfolded i]
  have s6: "ser_panic st' = ser_panic st" using sp by blast
  have s1: "ser_i st' = ?i + bsize m" using sp by blast
  have s2: "length (ser_output st') = length (ser_output st)" using sp by blast
  have s3: "\<And>a. a < ?i \<Longrightarrow> ser_output st' ! a = out1 ! a" using sp by blast
  have s4h: "node_children m \<noteq> [] \<Longrightarrow> ser_output st' ! ?i = hdr m" using sp by blast
  have s4c: "\<And>k. k < length (node_children m) \<Longrightarrow>
               ser_output st' ! (?i + 1 + k) = childw (node_children m ! k)"
  proof -
    fix k assume k: "k < length (node_children m)"
    then have "node_children m \<noteq> []" by auto
    then show "ser_output st' ! (?i + 1 + k) = childw (node_children m ! k)" using sp k by blast
  qed
  have s4f: "\<And>k. k < length (node_children m) \<Longrightarrow> node_children (node_children m ! k) \<noteq> [] \<Longrightarrow>
               ser_fixup st' (q @ [k]) = ?i + 1 + k"
  proof -
    fix k assume k: "k < length (node_children m)" "node_children (node_children m ! k) \<noteq> []"
    then have "node_children m \<noteq> []" by auto
    then show "ser_fixup st' (q @ [k]) = ?i + 1 + k" using sp k by blast
  qed
  have s5: "\<And>q'. (\<forall>k. k < length (node_children m) \<and> node_children (node_children m ! k) \<noteq> []
                 \<longrightarrow> q' \<noteq> q @ [k]) \<Longrightarrow> ser_fixup st' q' = ser_fixup st q'"
    using sp by blast
  note pc = patch_cells[OF inv d qn room0, folded out1_def]
  have offold: "\<And>p n. (p, n) \<in> set es \<Longrightarrow> off_of ?es p = off_of es p"
    by (rule off_of_append_in) force
  have offnew: "off_of ?es q = ?i" by (rule off_of_last[OF qn])
  have A: "ser_i st' = total ?es" using s1 by simp
  have B: "\<forall>p n. (p, n) \<in> set ?es \<and> node_children n \<noteq> [] \<longrightarrow>
        ser_output st' ! off_of ?es p = hdr n \<and>
        (\<forall>k. k < length (node_children n) \<longrightarrow>
           ser_output st' ! (off_of ?es p + 1 + k) = cellw ?es (p @ [k]) (node_children n ! k) \<and>
           (node_children (node_children n ! k) \<noteq> [] \<longrightarrow>
              ser_fixup st' (p @ [k]) = off_of ?es p + 1 + k))"
  proof (intro allI impI, elim conjE)
    fix p n assume pn: "(p, n) \<in> set ?es" and nl: "node_children n \<noteq> []"
    show "ser_output st' ! off_of ?es p = hdr n \<and>
        (\<forall>k. k < length (node_children n) \<longrightarrow>
           ser_output st' ! (off_of ?es p + 1 + k) = cellw ?es (p @ [k]) (node_children n ! k) \<and>
           (node_children (node_children n ! k) \<noteq> [] \<longrightarrow>
              ser_fixup st' (p @ [k]) = off_of ?es p + 1 + k))"
    proof (cases "(p, n) \<in> set es")
      case True
      have pne: "p \<noteq> q" using True qn by force
      have h: "ser_output st' ! off_of ?es p = hdr n"
        using s3[OF hdr_lt_total[OF d True nl]] pc(1)[OF True] nl offold[OF True] by simp
      have c: "\<And>k. k < length (node_children n) \<Longrightarrow>
           ser_output st' ! (off_of ?es p + 1 + k) = cellw ?es (p @ [k]) (node_children n ! k)"
        using s3[OF cell_lt_total[OF d True]] pc(2)[OF True] offold[OF True] by simp
      have f: "\<And>k. k < length (node_children n) \<Longrightarrow> node_children (node_children n ! k) \<noteq> [] \<Longrightarrow>
              ser_fixup st' (p @ [k]) = off_of ?es p + 1 + k"
      proof -
        fix k assume k: "k < length (node_children n)" "node_children (node_children n ! k) \<noteq> []"
        have "ser_fixup st' (p @ [k]) = ser_fixup st (p @ [k])"
          by (rule s5) (simp add: pne)
        then show "ser_fixup st' (p @ [k]) = off_of ?es p + 1 + k"
          using ser_inv_fix[OF inv True k] offold[OF True] by simp
      qed
      show ?thesis using h c f by blast
    next
      case False
      then have e: "p = q" "n = m" using pn by auto
      have fresh: "\<And>k. q @ [k] \<notin> fst ` set ?es"
      proof
        fix k assume "q @ [k] \<in> fst ` set ?es"
        then have "q @ [k] \<in> fst ` set es" by auto
        then have "length (q @ [k]) \<le> length q" using len by blast
        then show False by simp
      qed
      have h: "ser_output st' ! off_of ?es p = hdr n" using s4h nl e offnew by simp
      have c: "\<And>k. k < length (node_children n) \<Longrightarrow>
           ser_output st' ! (off_of ?es p + 1 + k) = cellw ?es (p @ [k]) (node_children n ! k)"
        using s4c e offnew cellw_fresh[OF fresh] by simp
      have f: "\<And>k. k < length (node_children n) \<Longrightarrow> node_children (node_children n ! k) \<noteq> [] \<Longrightarrow>
              ser_fixup st' (p @ [k]) = off_of ?es p + 1 + k"
        using s4f e offnew by simp
      show ?thesis using h c f by blast
    qed
  qed
  have C: "\<forall>q'. ser_fixup st' q' \<noteq> 0 \<longrightarrow>
        (\<exists>p n k. (p, n) \<in> set ?es \<and> k < length (node_children n) \<and> q' = p @ [k] \<and>
                 node_children (node_children n ! k) \<noteq> [])"
  proof (intro allI impI)
    fix q' assume nz: "ser_fixup st' q' \<noteq> 0"
    show "\<exists>p n k. (p, n) \<in> set ?es \<and> k < length (node_children n) \<and> q' = p @ [k] \<and>
                 node_children (node_children n ! k) \<noteq> []"
    proof (cases "\<exists>k. k < length (node_children m) \<and> node_children (node_children m ! k) \<noteq> [] \<and> q' = q @ [k]")
      case True
      then obtain k where "k < length (node_children m)" "node_children (node_children m ! k) \<noteq> []"
        "q' = q @ [k]" by blast
      moreover have "(q, m) \<in> set ?es" by simp
      ultimately show ?thesis by blast
    next
      case False
      then have "ser_fixup st' q' = ser_fixup st q'" by (intro s5) blast
      then have "ser_fixup st q' \<noteq> 0" using nz by simp
      then obtain p n k where "(p, n) \<in> set es" "k < length (node_children n)" "q' = p @ [k]"
        "node_children (node_children n ! k) \<noteq> []"
        using ser_inv_fix_src[OF inv] by blast
      moreover then have "(p, n) \<in> set ?es" by simp
      ultimately show ?thesis by blast
    qed
  qed
  have "ser_inv ?es st'" unfolding ser_inv_def using A B C by blast
  then show ?thesis using s2 s6 by (simp add: st'_def)
qed

lemma ser_inv_init:
  "ser_inv [] \<lparr>ser_output = out, ser_i = 0, ser_fixup = (\<lambda>_. 0), ser_panic = None\<rparr>"
  by (simp add: ser_inv_def)

text \<open>Folding \<open>emit_node\<close> over a list of entries whose paths are distinct and never get shorter.\<close>

lemma ser_inv_fold:
  "ser_inv es st \<Longrightarrow> distinct (map fst (es @ fs)) \<Longrightarrow>
   (\<forall>i j. i < j \<and> j < length (es @ fs) \<longrightarrow> length (fst ((es @ fs) ! i)) \<le> length (fst ((es @ fs) ! j))) \<Longrightarrow>
   total (es @ fs) \<le> length (ser_output st) \<Longrightarrow>
   ser_inv (es @ fs) (fold emit_node fs st) \<and>
   length (ser_output (fold emit_node fs st)) = length (ser_output st) \<and>
   ser_panic (fold emit_node fs st) = ser_panic st"
proof (induction fs arbitrary: es st)
  case Nil
  then show ?case by simp
next
  case (Cons e fs)
  obtain q m where e: "e = (q, m)" by (cases e)
  have d: "distinct (map fst es)" and qn: "q \<notin> fst ` set es" using Cons.prems(2) e by auto
  have len: "\<forall>p\<in>fst ` set es. length p \<le> length q"
  proof
    fix p assume "p \<in> fst ` set es"
    then obtain i where i: "i < length es" "fst (es ! i) = p" by (auto simp: in_set_conv_nth)
    have "length (fst ((es @ e # fs) ! i)) \<le> length (fst ((es @ e # fs) ! length es))"
      using Cons.prems(3)[rule_format, of i "length es"] i(1) by simp
    then show "length p \<le> length q" using i e by (simp add: nth_append)
  qed
  have room: "total es + bsize m \<le> length (ser_output st)" using Cons.prems(4) e by simp
  note st = ser_inv_step[OF Cons.prems(1) d qn len room]
  have app: "es @ e # fs = (es @ [(q, m)]) @ fs" using e by simp
  have "ser_inv ((es @ [(q, m)]) @ fs) (fold emit_node fs (emit_node (q, m) st)) \<and>
        length (ser_output (fold emit_node fs (emit_node (q, m) st))) = length (ser_output (emit_node (q, m) st)) \<and>
        ser_panic (fold emit_node fs (emit_node (q, m) st)) = ser_panic (emit_node (q, m) st)"
  proof (rule Cons.IH)
    show "ser_inv (es @ [(q, m)]) (emit_node (q, m) st)" using st by simp
    show "distinct (map fst ((es @ [(q, m)]) @ fs))" using Cons.prems(2) e by simp
    show "\<forall>i j. i < j \<and> j < length ((es @ [(q, m)]) @ fs) \<longrightarrow>
       length (fst (((es @ [(q, m)]) @ fs) ! i)) \<le> length (fst (((es @ [(q, m)]) @ fs) ! j))"
      using Cons.prems(3) unfolding app .
    show "total ((es @ [(q, m)]) @ fs) \<le> length (ser_output (emit_node (q, m) st))"
      using Cons.prems(4) st e by simp
  qed
  then show ?case using st e by simp
qed

text \<open>The nodes below a node in the order in which \<^verbatim>\<open>walk\<close> visits them, each with its path.\<close>

fun dfs :: "nat list \<Rightarrow> TrieNode \<Rightarrow> (nat list \<times> TrieNode) list"
  and dfs_children :: "nat list \<Rightarrow> nat \<Rightarrow> TrieNode list \<Rightarrow> (nat list \<times> TrieNode) list"
where
  "dfs p (TrieNode v cs idx) = (p, TrieNode v cs idx) # dfs_children p 0 cs"
| "dfs_children p j [] = []"
| "dfs_children p j (c # cs) = dfs (p @ [j]) c @ dfs_children p (j + 1) cs"

lemma walk_dfs:
  "d = length p \<Longrightarrow>
     walk fn p d n st = fold (\<lambda>e. fn (snd e) (fst e) (length (fst e))) (dfs p n) st"
  "d = length p \<Longrightarrow>
     walk_children fn p d j cs st = fold (\<lambda>e. fn (snd e) (fst e) (length (fst e))) (dfs_children p j cs) st"
  by (induction fn p d n st and fn p d j cs st rule: walk_walk_children.induct) simp_all

lemma dfs_paths:
  "e \<in> set (dfs p n) \<Longrightarrow> \<exists>r. fst e = p @ r"
  "e \<in> set (dfs_children p j cs) \<Longrightarrow> \<exists>i r. j \<le> i \<and> fst e = p @ [i] @ r"
proof (induction p n and p j cs arbitrary: e and e rule: dfs_dfs_children.induct)
  case (1 p v cs idx)
  from 1(2) consider "e = (p, TrieNode v cs idx)" | "e \<in> set (dfs_children p 0 cs)" by auto
  then show ?case
  proof cases
    case 1
    then show ?thesis by simp
  next
    case 2
    then obtain i r where "fst e = p @ [i] @ r" using 1(1) by blast
    then show ?thesis by blast
  qed
next
  case (2 p j)
  then show ?case by simp
next
  case (3 p j c cs)
  from 3(3) consider "e \<in> set (dfs (p @ [j]) c)" | "e \<in> set (dfs_children p (j + 1) cs)" by auto
  then show ?case
  proof cases
    case 1
    then obtain r where "fst e = (p @ [j]) @ r" using 3(1) by blast
    then show ?thesis by auto
  next
    case 2
    then obtain i r where "j + 1 \<le> i" "fst e = p @ [i] @ r" using 3(2) by blast
    then show ?thesis by (intro exI[of _ i] exI[of _ r]) simp
  qed
qed

lemma dfs_children_longer:
  "e \<in> set (dfs_children p j cs) \<Longrightarrow> length p < length (fst e)"
  using dfs_paths(2)[of e p j cs] by auto

lemma dfs_longer: "e \<in> set (dfs p n) \<Longrightarrow> length p \<le> length (fst e)"
  using dfs_paths(1)[of e p n] by auto

lemma dfs_distinct:
  "distinct (map fst (dfs p n))"
  "distinct (map fst (dfs_children p j cs))"
proof (induction p n and p j cs rule: dfs_dfs_children.induct)
  case (1 p v cs idx)
  have "p \<notin> fst ` set (dfs_children p 0 cs)" using dfs_children_longer by fastforce
  then show ?case using 1 by simp
next
  case (2 p j)
  then show ?case by simp
next
  case (3 p j c cs)
  have "fst ` set (dfs (p @ [j]) c) \<inter> fst ` set (dfs_children p (j + 1) cs) = {}"
  proof (rule ccontr)
    assume "\<not> ?thesis"
    then obtain e e' where e: "e \<in> set (dfs (p @ [j]) c)" "e' \<in> set (dfs_children p (j + 1) cs)"
      "fst e = fst e'" by auto
    obtain r where r: "fst e = (p @ [j]) @ r" using dfs_paths(1)[OF e(1)] by blast
    obtain i r' where i: "j + 1 \<le> i" "fst e' = p @ [i] @ r'" using dfs_paths(2)[OF e(2)] by blast
    show False using r i e(3) by simp
  qed
  then show ?case using 3 by simp
qed

lemma dfs_self: "(p, n) \<in> set (dfs p n)"
  by (cases n) simp

lemma dfs_children_nth:
  "k < length cs \<Longrightarrow> set (dfs (p @ [j + k]) (cs ! k)) \<subseteq> set (dfs_children p j cs)"
proof (induction cs arbitrary: j k)
  case Nil
  then show ?case by simp
next
  case (Cons c cs)
  show ?case
  proof (cases k)
    case 0
    then show ?thesis by simp
  next
    case (Suc k')
    have "k' < length cs" using Cons.prems Suc by simp
    then have "set (dfs (p @ [(j + 1) + k']) (cs ! k')) \<subseteq> set (dfs_children p (j + 1) cs)"
      by (rule Cons.IH)
    then show ?thesis using Suc by auto
  qed
qed

text \<open>The list is closed under taking children.\<close>

lemma dfs_closed:
  "(q, m) \<in> set (dfs p n) \<Longrightarrow> k < length (node_children m) \<Longrightarrow>
     (q @ [k], node_children m ! k) \<in> set (dfs p n)"
  "(q, m) \<in> set (dfs_children p j cs) \<Longrightarrow> k < length (node_children m) \<Longrightarrow>
     (q @ [k], node_children m ! k) \<in> set (dfs_children p j cs)"
proof (induction p n and p j cs rule: dfs_dfs_children.induct)
  case (1 p v cs idx)
  show ?case
  proof (cases "(q, m) = (p, TrieNode v cs idx)")
    case True
    then have k: "k < length cs" using 1(3) by auto
    have "(p @ [0 + k], cs ! k) \<in> set (dfs (p @ [0 + k]) (cs ! k))" by (rule dfs_self)
    then have "(p @ [k], cs ! k) \<in> set (dfs_children p 0 cs)"
      using dfs_children_nth[OF k, of p 0] by auto
    then show ?thesis using True by auto
  next
    case False
    then have "(q, m) \<in> set (dfs_children p 0 cs)" using 1(2) by auto
    then show ?thesis using 1(1) 1(3) by simp
  qed
next
  case (2 p j)
  then show ?case by simp
next
  case (3 p j c cs)
  then show ?case by auto
qed

lemma levelp_filter:
  "levelp k p n = filter (\<lambda>e. length (fst e) = length p + k) (dfs p n)"
  "levelp_children k p j cs = filter (\<lambda>e. length (fst e) = length p + 1 + k) (dfs_children p j cs)"
proof (induction k p n and k p j cs rule: levelp_levelp_children.induct)
  case (1 p n)
  obtain v cs idx where n: "n = TrieNode v cs idx" by (cases n)
  have "filter (\<lambda>e. length (fst e) = length p) (dfs_children p 0 cs) = []"
    using dfs_children_longer by (fastforce simp: filter_empty_conv)
  then show ?case by (simp add: n)
next
  case (2 k p v cs idx)
  then show ?case by simp
next
  case (3 k p j)
  then show ?case by simp
next
  case (4 k p j c cs)
  then show ?case by simp
qed

text \<open>The entries of a list level by level, up to level \<open>D\<close>.\<close>

definition by_level :: "(nat list \<times> TrieNode) list \<Rightarrow> nat \<Rightarrow> (nat list \<times> TrieNode) list" where
  "by_level xs D = concat (map (\<lambda>L. filter (\<lambda>e. length (fst e) = L) xs) [0..<D + 1])"

lemma by_level_Suc:
  "by_level xs (Suc D) = by_level xs D @ filter (\<lambda>e. length (fst e) = Suc D) xs"
  by (simp add: by_level_def)

lemma by_level_0: "by_level xs 0 = filter (\<lambda>e. length (fst e) = 0) xs"
  by (simp add: by_level_def)

lemma by_level_set: "set (by_level xs D) = {e \<in> set xs. length (fst e) \<le> D}"
  by (induction D) (auto simp: by_level_Suc by_level_0 le_Suc_eq)

lemma by_level_distinct: "distinct (map fst xs) \<Longrightarrow> distinct (map fst (by_level xs D))"
proof (induction D)
  case 0
  then show ?case by (simp add: by_level_0 distinct_map_filter)
next
  case (Suc D)
  have "fst ` set (by_level xs D) \<inter> fst ` set (filter (\<lambda>e. length (fst e) = Suc D) xs) = {}"
    by (auto simp: by_level_set)
  then show ?case using Suc by (simp add: by_level_Suc distinct_map_filter)
qed

lemma level_sorted:
  "sorted_wrt (\<lambda>a b. length (fst a) \<le> length (fst b)) (filter (\<lambda>e. length (fst e) = L) xs)"
  by (induction xs) auto

lemma by_level_sorted:
  "sorted_wrt (\<lambda>a b. length (fst a) \<le> length (fst b)) (by_level xs D)"
proof (induction D)
  case 0
  then show ?case unfolding by_level_0 by (rule level_sorted)
next
  case (Suc D)
  have "\<forall>a\<in>set (by_level xs D). \<forall>b\<in>set (filter (\<lambda>e. length (fst e) = Suc D) xs).
          length (fst a) \<le> length (fst b)"
    by (simp add: by_level_set)
  then show ?case using Suc level_sorted[of "Suc D" xs]
    unfolding by_level_Suc sorted_wrt_append by blast
qed

lemma total_filter_le_Suc:
  "total (filter (\<lambda>e. length (fst e) \<le> Suc D) xs)
     = total (filter (\<lambda>e. length (fst e) \<le> D) xs) + total (filter (\<lambda>e. length (fst e) = Suc D) xs)"
  by (induction xs) auto

lemma by_level_total: "total (by_level xs D) = total (filter (\<lambda>e. length (fst e) \<le> D) xs)"
  by (induction D) (simp_all add: by_level_Suc by_level_0 total_filter_le_Suc)

lemma by_level_total_all:
  "\<forall>e\<in>set xs. length (fst e) \<le> D \<Longrightarrow> total (by_level xs D) = total xs"
  by (simp add: by_level_total)

text \<open>What the measuring pass of \<^verbatim>\<open>serialize\<close> computes.\<close>

lemma fold_measure_fn:
  "fold (\<lambda>e. measure_fn (snd e) (fst e) (length (fst e))) es (sz, md)
     = (sz + total es, fold (\<lambda>e m. max m (length (fst e))) es md)"
  by (induction es arbitrary: sz md) (simp_all add: measure_fn_def bsize_def)

lemma fold_max_ge: "md \<le> fold (\<lambda>e m. max m (length (fst e))) es md"
proof (induction es arbitrary: md)
  case Nil
  then show ?case by simp
next
  case (Cons e es)
  have "md \<le> max md (length (fst e))" by simp
  also have "\<dots> \<le> fold (\<lambda>e m. max m (length (fst e))) es (max md (length (fst e)))" by (rule Cons)
  finally show ?case by simp
qed

lemma fold_max_bound:
  "e \<in> set es \<Longrightarrow> length (fst e) \<le> fold (\<lambda>e m. max m (length (fst e))) es md"
proof (induction es arbitrary: md)
  case Nil
  then show ?case by simp
next
  case (Cons x es)
  show ?case
  proof (cases "e = x")
    case True
    have "length (fst e) \<le> max md (length (fst x))" using True by simp
    also have "\<dots> \<le> fold (\<lambda>e m. max m (length (fst e))) es (max md (length (fst x)))"
      by (rule fold_max_ge)
    finally show ?thesis by simp
  next
    case False
    then show ?thesis using Cons by simp
  qed
qed

text \<open>
  A list of entries lays a trie out in a slice: every node with children owns the block
  that starts at its offset, a header followed by one word per child.
\<close>

definition layout :: "(nat list \<times> TrieNode) list \<Rightarrow> 32 word list \<Rightarrow> bool" where
  "layout es out \<longleftrightarrow>
     distinct (map fst es) \<and> total es = length out \<and>
     (\<forall>p n k. (p, n) \<in> set es \<and> k < length (node_children n) \<longrightarrow>
        (p @ [k], node_children n ! k) \<in> set es \<and>
        out ! off_of es p = hdr n \<and>
        out ! (off_of es p + 1 + k) =
          (if node_children (node_children n ! k) = [] then leafw (node_children n ! k)
           else valw (node_children n ! k) OR ptr (off_of es (p @ [k]))))"

lemma fold_concat_list: "fold f (concat xss) = fold (fold f) xss"
  by (induction xss) simp_all

lemma fold_layers:
  "fold (\<lambda>layer. walk (emit layer) [] 0 root) [0..<D + 1] st
     = fold emit_node (by_level (dfs [] root) D) st"
proof -
  have w: "\<And>L. walk (emit L) [] 0 root = fold emit_node (filter (\<lambda>e. length (fst e) = L) (dfs [] root))"
    by (rule ext) (simp add: walk_emit(1) levelp_filter(1))
  show ?thesis
    unfolding by_level_def fold_concat_list fold_map w by (simp add: comp_def)
qed

lemma by_level_head:
  "\<exists>rest. by_level (dfs [] root) D = ([], root) # rest"
proof (induction D)
  case 0
  obtain v cs idx where "root = TrieNode v cs idx" by (cases root)
  then show ?case by (simp add: by_level_0)
next
  case (Suc D)
  then show ?case by (auto simp: by_level_Suc)
qed

lemma serialize_layout:
  "\<exists>out es. serialize root = Inr out \<and> layout es out \<and> ([], root) \<in> set es \<and> off_of es [] = 0"
proof -
  define xs where "xs = dfs [] root"
  define D where "D = fold (\<lambda>e m. max m (length (fst e))) xs 0"
  define es where "es = by_level xs D"
  define st0 where "st0 = \<lparr>ser_output = replicate (total xs) 0, ser_i = 0, ser_fixup = (\<lambda>_. 0),
                          ser_panic = None\<rparr>"
  define st where "st = fold emit_node es st0"
  have m: "walk measure_fn [] 0 root (0, 0) = (total xs, D)"
    by (simp add: walk_dfs(1) fold_measure_fn xs_def D_def)
  have bound: "\<forall>e\<in>set xs. length (fst e) \<le> D"
    unfolding D_def using fold_max_bound by blast
  have tot: "total es = total xs" unfolding es_def by (rule by_level_total_all[OF bound])
  have set: "set es = set xs" unfolding es_def using bound by (auto simp: by_level_set)
  have d: "distinct (map fst es)" unfolding es_def xs_def by (rule by_level_distinct[OF dfs_distinct(1)])
  have srt: "\<forall>i j. i < j \<and> j < length ([] @ es) \<longrightarrow>
               length (fst (([] @ es) ! i)) \<le> length (fst (([] @ es) ! j))"
    using by_level_sorted[of xs D] by (simp add: es_def sorted_wrt_iff_nth_less)
  have inv0: "ser_inv [] st0" unfolding st0_def by (rule ser_inv_init)
  have "ser_inv ([] @ es) (fold emit_node es st0) \<and>
        length (ser_output (fold emit_node es st0)) = length (ser_output st0) \<and>
        ser_panic (fold emit_node es st0) = ser_panic st0"
    by (rule ser_inv_fold[OF inv0 _ srt]) (simp_all add: d tot st0_def)
  then have inv: "ser_inv es st" and len: "length (ser_output st) = total xs"
    and np: "ser_panic st = None"
    by (simp_all add: st_def st0_def)
  have i: "ser_i st = total xs" using ser_inv_i[OF inv] tot by simp
  have fl: "fold (\<lambda>layer. walk (emit layer) [] 0 root) [0..<D + 1]
              \<lparr>ser_output = replicate (total xs) 0, ser_i = 0, ser_fixup = (\<lambda>_. 0),
               ser_panic = None\<rparr> = st"
    unfolding fold_layers st_def es_def xs_def st0_def ..
  have ser: "serialize root = Inr (ser_output st)"
    unfolding serialize_def m prod.case Let_def fl by (simp add: len i np)
  have closed: "\<And>p n k. (p, n) \<in> set es \<Longrightarrow> k < length (node_children n) \<Longrightarrow>
                   (p @ [k], node_children n ! k) \<in> set es"
    unfolding set xs_def by (rule dfs_closed(1))
  have lay: "layout es (ser_output st)"
    unfolding layout_def
  proof (intro conjI allI impI)
    show "distinct (map fst es)" by (rule d)
    show "total es = length (ser_output st)" using tot len by simp
  next
    fix p n k assume a: "(p, n) \<in> set es \<and> k < length (node_children n)"
    then have pn: "(p, n) \<in> set es" and k: "k < length (node_children n)" by simp_all
    have nl: "node_children n \<noteq> []" using k by auto
    show c: "(p @ [k], node_children n ! k) \<in> set es" by (rule closed[OF pn k])
    show "ser_output st ! off_of es p = hdr n" by (rule ser_inv_hdr[OF inv pn nl])
    have "p @ [k] \<in> fst ` set es" using c by force
    then show "ser_output st ! (off_of es p + 1 + k) =
          (if node_children (node_children n ! k) = [] then leafw (node_children n ! k)
           else valw (node_children n ! k) OR ptr (off_of es (p @ [k])))"
      using ser_inv_cell[OF inv pn k] by (simp add: cellw_def)
  qed
  obtain rest where hd: "es = ([], root) # rest" using by_level_head[of root D] by (auto simp: es_def xs_def)
  have "([], root) \<in> set es" "off_of es [] = 0" using hd by (simp_all add: off_of_def)
  then show ?thesis using ser lay by blast
qed

lemma m8: "(0xff::int) = mask 8" "(0xff::nat) = mask 8" "(0xff::32 word) = mask 8"
  by (simp_all add: mask_eq_exp_minus_1)
lemma m23: "(0x7fffff::int) = mask 23" by (simp add: mask_eq_exp_minus_1)
lemma m24: "(0xffffff::int) = mask 24" by (simp add: mask_eq_exp_minus_1)

lemma bit_256: "bit (256::nat) n \<longleftrightarrow> n = 8" "bit (256::int) n \<longleftrightarrow> n = 8"
proof -
  have e: "(256::nat) = 2 ^ 8" "(256::int) = 2 ^ 8" by simp_all
  show "bit (256::nat) n \<longleftrightarrow> n = 8" by (subst e, subst bit_exp_iff) simp
  show "bit (256::int) n \<longleftrightarrow> n = 8" by (subst e, subst bit_exp_iff) simp
qed

lemma bit_lt: "(x::nat) < 2 ^ m \<Longrightarrow> bit x n \<Longrightarrow> n < m"
  by (metis bit_take_bit_iff take_bit_nat_eq_self)

lemma bit_lt_int: "0 \<le> (x::int) \<Longrightarrow> x < 2 ^ m \<Longrightarrow> bit x n \<Longrightarrow> n < m"
  by (metis bit_take_bit_iff take_bit_int_eq_self)

lemma bit_lt23: "(x::nat) < 8388608 \<Longrightarrow> bit x n \<Longrightarrow> n < 23"
  using bit_lt[of x 23 n] by simp

lemma bit_lt23_int: "0 \<le> (x::int) \<Longrightarrow> x < 8388608 \<Longrightarrow> bit x n \<Longrightarrow> n < 23"
  using bit_lt_int[of x 23 n] by simp

lemma bit_lt24_int: "-1 \<le> (x::int) \<Longrightarrow> x < 16777215 \<Longrightarrow> bit (x + 1) n \<Longrightarrow> n < 24"
  using bit_lt_int[of "x + 1" 24 n] by simp

lemma bit_byte: "bit (v::byte) n \<Longrightarrow> n < 8"
  using bit_imp_le_length[of v n] by simp

lemma valw_ptr_byte: "(ucast ((valw c OR ptr off) AND 0xff) :: byte) = node_value c"
  unfolding valw_def ptr_def m8 m23
  by (rule bit_word_eqI) (auto simp: bit_simps)

lemma valw_ptr_flag: "unat (valw c OR ptr off) AND 0x100 = 0"
  unfolding valw_def ptr_def m23
  by (rule bit_eqI) (auto simp: bit_simps bit_256 dest: bit_byte)

lemma valw_ptr_off: "off < 2 ^ 23 \<Longrightarrow> drop_bit 9 (unat (valw c OR ptr off)) = off"
  unfolding valw_def ptr_def m23
  by (rule bit_eqI) (auto simp: bit_simps dest: bit_byte bit_lt23)

lemma leafw_byte: "(ucast (leafw c AND 0xff) :: byte) = node_value c"
  unfolding leafw_def m8
  by (rule bit_word_eqI) (auto simp: bit_simps bit_256)

lemma leafw_flag: "unat (leafw c) AND 0x100 \<noteq> 0"
proof
  assume z: "unat (leafw c) AND 0x100 = 0"
  have "bit (unat (leafw c) AND 0x100) 8"
    unfolding leafw_def by (simp add: bit_simps bit_256)
  then show False unfolding z by simp
qed

lemma leafw_index:
  "0 \<le> node_index c \<Longrightarrow> node_index c < 2 ^ 23 \<Longrightarrow> int (drop_bit 9 (unat (leafw c))) = node_index c"
  unfolding leafw_def
  by (rule bit_eqI) (auto simp: bit_simps bit_256 dest: bit_byte bit_lt23_int)

lemma hdr_count: "unat (hdr n) AND 0xff = length (node_children n) mod 256"
proof -
  have "unat (hdr n) AND 0xff = take_bit 8 (length (node_children n))"
    unfolding hdr_def m8 m24
    by (rule bit_eqI) (auto simp: bit_simps)
  then show ?thesis by (simp add: take_bit_eq_mod)
qed

lemma hdr_index:
  "-1 \<le> node_index n \<Longrightarrow> node_index n + 1 < 2 ^ 24 \<Longrightarrow> int (unat (drop_bit 8 (hdr n))) - 1 = node_index n"
proof -
  assume a: "-1 \<le> node_index n" "node_index n + 1 < 2 ^ 24"
  have "int (unat (drop_bit 8 (hdr n))) = node_index n + 1"
    unfolding hdr_def m8 m24 using a
    by (intro bit_eqI) (auto simp: bit_simps dest: bit_lt24_int)
  then show ?thesis by simp
qed

lemma bsearch_eq:
  "(\<forall>k<N. pos + k < length out \<and> (ucast (out ! (pos + k) AND 0xff) :: byte) = node_value (cs ! k)) \<Longrightarrow>
   r \<le> N \<Longrightarrow>
   bsearch out pos char l r = Inr (search_loop (\<lambda>i. node_value (cs ! i) \<ge> char) l r)"
proof (induction out pos char l r rule: bsearch.induct)
  case (1 trie pos char left right)
  show ?case
  proof (cases "left < right")
    case False
    then show ?thesis by (subst bsearch.simps, subst search_loop.simps) simp
  next
    case True
    define mid where "mid = left + (right - left) div 2"
    have mid: "mid = (left + right) div 2" "mid < right" using True by (auto simp: mid_def)
    then have mN: "mid < N" using 1(4) by simp
    have rdm: "rd trie (pos + mid) = Inr (trie ! (pos + mid))" using 1(3) mN by (simp add: rd_def)
    have byte: "(ucast (trie ! (pos + mid) AND 0xff) :: byte) = node_value (cs ! mid)"
      using 1(3) mN by simp
    show ?thesis
    proof (cases "node_value (cs ! mid) < char")
      case lt: True
      have "bsearch trie pos char (mid + 1) right
              = Inr (search_loop (\<lambda>i. node_value (cs ! i) \<ge> char) (mid + 1) right)"
        using 1(1)[OF True mid_def rdm] byte lt 1(3) 1(4) by simp
      moreover have "bsearch trie pos char left right = bsearch trie pos char (mid + 1) right"
        using True rdm byte lt by (subst bsearch.simps) (simp add: mid_def[symmetric] Let_def)
      moreover have "search_loop (\<lambda>i. node_value (cs ! i) \<ge> char) left right
                       = search_loop (\<lambda>i. node_value (cs ! i) \<ge> char) (mid + 1) right"
        using True lt by (subst search_loop.simps) (simp add: mid(1)[symmetric] Let_def not_le)
      ultimately show ?thesis by simp
    next
      case ge: False
      have "bsearch trie pos char left mid
              = Inr (search_loop (\<lambda>i. node_value (cs ! i) \<ge> char) left mid)"
        using 1(2)[OF True mid_def rdm] byte ge 1(3) mN by simp
      moreover have "bsearch trie pos char left right = bsearch trie pos char left mid"
        using True rdm byte ge by (subst bsearch.simps) (simp add: mid_def[symmetric] Let_def)
      moreover have "search_loop (\<lambda>i. node_value (cs ! i) \<ge> char) left right
                       = search_loop (\<lambda>i. node_value (cs ! i) \<ge> char) left mid"
        using True ge by (subst search_loop.simps) (simp add: mid(1)[symmetric] Let_def not_le)
      ultimately show ?thesis by simp
    qed
  qed
qed

text \<open>A node with 256 children has one child for every byte, in order.\<close>

lemma dense_values:
  assumes s: "sorted_wrt (<) (map node_value cs)" and l: "length cs = 256" and k: "k < 256"
  shows "unat (node_value (cs ! k)) = k"
proof -
  let ?xs = "map (\<lambda>c. unat (node_value c)) cs"
  have e: "((<) :: byte \<Rightarrow> byte \<Rightarrow> bool) = (\<lambda>a b. unat a < unat b)"
    by (intro ext) (rule word_less_nat_alt)
  have ss: "sorted_wrt (<) ?xs" using s[unfolded e] by (simp add: sorted_wrt_map)
  then have d: "distinct ?xs" using strict_sorted_iff[of ?xs] by simp
  have sub: "set ?xs \<subseteq> {0..<256}"
  proof
    fix x assume "x \<in> set ?xs"
    then obtain c where "x = unat (node_value c)" by auto
    moreover have "unat (node_value c) < 2 ^ LENGTH(8)" by (rule unsigned_less)
    ultimately show "x \<in> {0..<256}" by simp
  qed
  have "card (set ?xs) = 256" using distinct_card[OF d] l by simp
  then have eq: "set ?xs = {0..<256}" using sub by (intro card_subset_eq) simp_all
  have "?xs = [0..<256]"
  proof (rule strict_sorted_equal)
    show "sorted_wrt (<) ?xs" by (rule ss)
    show "sorted_wrt (<) [0..<256]" by (simp add: strict_sorted_iff)
    show "set ?xs = set [0..<256]" using eq by simp
  qed
  then have "?xs ! k = [0..<256] ! k" by simp
  then show ?thesis using k l by simp
qed

lemma children_le_256:
  assumes s: "sorted_wrt (<) (map node_value cs)"
  shows "length cs \<le> 256"
proof -
  have d: "distinct (map node_value cs)" using s strict_sorted_iff[of "map node_value cs"] by simp
  have "length cs = card (set (map node_value cs))" using distinct_card[OF d] by simp
  also have "\<dots> \<le> card (UNIV :: byte set)" by (intro card_mono) simp_all
  also have "\<dots> = 256" by (simp add: card_word)
  finally show ?thesis .
qed

lemma layout_cell_byte:
  assumes lay: "layout es out" and pn: "(p, n) \<in> set es" and k: "k < length (node_children n)"
  shows "off_of es p + 1 + k < length out"
    and "(ucast (out ! (off_of es p + 1 + k) AND 0xff) :: byte) = node_value (node_children n ! k)"
proof -
  have d: "distinct (map fst es)" and t: "total es = length out" using lay by (simp_all add: layout_def)
  show "off_of es p + 1 + k < length out" using cell_lt_total[OF d pn k] t by simp
  have "out ! (off_of es p + 1 + k) =
          (if node_children (node_children n ! k) = [] then leafw (node_children n ! k)
           else valw (node_children n ! k) OR ptr (off_of es (p @ [k])))"
    using lay pn k unfolding layout_def by blast
  then show "(ucast (out ! (off_of es p + 1 + k) AND 0xff) :: byte) = node_value (node_children n ! k)"
    by (simp add: leafw_byte valw_ptr_byte)
qed

lemma layout_hdr:
  assumes lay: "layout es out" and pn: "(p, n) \<in> set es" and nl: "node_children n \<noteq> []"
  shows "rd out (off_of es p) = Inr (hdr n)"
proof -
  have d: "distinct (map fst es)" and t: "total es = length out" using lay by (simp_all add: layout_def)
  have "0 < length (node_children n)" using nl by simp
  then have "out ! off_of es p = hdr n" using lay pn unfolding layout_def by blast
  then show ?thesis using hdr_lt_total[OF d pn nl] t by (simp add: rd_def)
qed

lemma find_child_layout:
  assumes lay: "layout es out" and pn: "(p, n) \<in> set es" and nl: "node_children n \<noteq> []"
    and srt: "sorted_wrt (<) (map node_value (node_children n))"
  shows "find_child out (off_of es p) char =
           Inr (if child_pos (node_children n) char < length (node_children n) \<and>
                   node_value (node_children n ! child_pos (node_children n) char) = char
                then Some (unat (out ! (off_of es p + 1 + child_pos (node_children n) char)))
                else None)"
proof -
  let ?cs = "node_children n"
  let ?off = "off_of es p"
  let ?r = "child_pos ?cs char"
  have h: "rd out ?off = Inr (hdr n)" by (rule layout_hdr[OF lay pn nl])
  have cnt: "unat (hdr n) AND 0xff = length ?cs mod 256" by (rule hdr_count)
  have le: "length ?cs \<le> 256" by (rule children_le_256[OF srt])
  have cells: "\<forall>k<length ?cs. (?off + 1) + k < length out \<and>
                 (ucast (out ! ((?off + 1) + k) AND 0xff) :: byte) = node_value (?cs ! k)"
    using layout_cell_byte[OF lay pn] by simp
  have rdc: "\<And>k. k < length ?cs \<Longrightarrow> rd out (?off + 1 + k) = Inr (out ! (?off + 1 + k))"
    using cells by (simp add: rd_def)
  show ?thesis
  proof (cases "length ?cs = 256")
    case True
    have z: "unat (hdr n) AND 0xff = 0" using cnt True by simp
    have k: "unat char < length ?cs" using True unsigned_less[of char] by simp
    have "unat (node_value (?cs ! unat char)) = unat char"
      using dense_values[OF srt True] k True by simp
    then have v: "node_value (?cs ! unat char) = char" by (simp add: word_unat_eq_iff)
    have r: "?r = unat char" by (rule child_pos_found[OF srt k v])
    show ?thesis
      unfolding find_child_def h using z rdc[OF k] r k v by (simp add: Let_def)
  next
    case False
    then have lt: "length ?cs < 256" using le by simp
    have c: "unat (hdr n) AND 0xff = length ?cs" using cnt lt by simp
    have nz: "length ?cs \<noteq> 0" using nl by simp
    have bs: "bsearch out (?off + 1) char 0 (length ?cs) = Inr ?r"
      using bsearch_eq[OF cells order_refl, of char 0]
      by (simp add: child_pos_def sort_Search_def)
    have rle: "?r \<le> length ?cs" using child_pos_spec[OF srt] by blast
    show ?thesis
    proof (cases "?r = length ?cs")
      case True
      then show ?thesis unfolding find_child_def h using c nz bs by (simp add: Let_def)
    next
      case ne: False
      then have rl: "?r < length ?cs" using rle by simp
      have b: "(ucast (out ! (?off + 1 + ?r) AND 0xff) :: byte) = node_value (?cs ! ?r)"
        using cells rl by simp
      show ?thesis unfolding find_child_def h using c nz bs ne rl rdc[OF rl] b
        by (simp add: Let_def)
    qed
  qed
qed

lemma lookup_child_pos:
  "lookup n (char # rest) =
     (if child_pos (node_children n) char < length (node_children n) \<and>
         node_value (node_children n ! child_pos (node_children n) char) = char
      then lookup (node_children n ! child_pos (node_children n) char) rest else -1)"
  by (simp add: Let_def child_pos_def)

lemma lookup_leaf: "node_children c = [] \<Longrightarrow> lookup c (x # xs) = -1"
  by (simp add: Let_def)

lemma idx_ok_child:
  "idx_ok B n \<Longrightarrow> c \<in> set (node_children n) \<Longrightarrow>
     idx_ok B c \<and> (node_children c = [] \<longrightarrow> 0 \<le> node_index c)"
  by (cases n) auto

lemma idx_ok_bounds: "idx_ok B n \<Longrightarrow> -1 \<le> node_index n \<and> node_index n < B"
  by (cases n) auto

lemma wf_child: "wf_trie n \<Longrightarrow> c \<in> set (node_children n) \<Longrightarrow> wf_trie c"
  by (cases n) auto

text \<open>On a laid-out trie, the loop of \<^verbatim>\<open>Lookup\<close> computes \<open>lookup\<close>.\<close>

lemma lookup_layout:
  assumes lay: "layout es out" and bound: "length out \<le> 2 ^ 23"
  shows "(p, n) \<in> set es \<Longrightarrow> node_children n \<noteq> [] \<Longrightarrow> wf_trie n \<Longrightarrow> idx_ok (2 ^ 23) n \<Longrightarrow>
         lookup_loop out (off_of es p) key = Inr (lookup n key)"
proof (induction key arbitrary: p n)
  case Nil
  have b: "-1 \<le> node_index n" "node_index n + 1 < 2 ^ 24"
    using idx_ok_bounds[OF Nil(4)] by simp_all
  show ?case using layout_hdr[OF lay Nil(1,2)] hdr_index[OF b] by simp
next
  case (Cons char rest)
  let ?cs = "node_children n"
  let ?off = "off_of es p"
  let ?r = "child_pos ?cs char"
  have d: "distinct (map fst es)" and t: "total es = length out" using lay by (simp_all add: layout_def)
  have srt: "sorted_wrt (<) (map node_value ?cs)" by (rule wf_sorted[OF Cons(4)])
  note fc = find_child_layout[OF lay Cons(2,3) srt, of char]
  show ?case
  proof (cases "?r < length ?cs \<and> node_value (?cs ! ?r) = char")
    case False
    have "lookup n (char # rest) = -1" using False by (subst lookup_child_pos) auto
    moreover have "lookup_loop out ?off (char # rest) = Inr (-1)" using fc False by simp
    ultimately show ?thesis by simp
  next
    case True
    let ?c = "?cs ! ?r"
    let ?w = "out ! (?off + 1 + ?r)"
    have rl: "?r < length ?cs" using True by simp
    have cin: "?c \<in> set ?cs" using rl by simp
    have lk: "lookup n (char # rest) = lookup ?c rest" using True by (subst lookup_child_pos) auto
    have f: "find_child out ?off char = Inr (Some (unat ?w))" using fc True by simp
    have cell: "?w = (if node_children ?c = [] then leafw ?c
                      else valw ?c OR ptr (off_of es (p @ [?r])))"
      using lay Cons(2) rl unfolding layout_def by blast
    have centry: "(p @ [?r], ?c) \<in> set es" using lay Cons(2) rl unfolding layout_def by blast
    have cok: "idx_ok (2 ^ 23) ?c" "node_children ?c = [] \<longrightarrow> 0 \<le> node_index ?c"
      using idx_ok_child[OF Cons(5) cin] by simp_all
    show ?thesis
    proof (cases "node_children ?c = []")
      case leaf: True
      have w: "?w = leafw ?c" using cell leaf by simp
      have i: "int (drop_bit 9 (unat (leafw ?c))) = node_index ?c"
        using leafw_index[of ?c] cok leaf idx_ok_bounds[OF cok(1)] by simp
      show ?thesis
      proof (cases rest)
        case Nil
        then show ?thesis using f w leafw_flag[of ?c] i lk by simp
      next
        case (Cons x xs)
        then show ?thesis using f w leafw_flag[of ?c] lk lookup_leaf[OF leaf] by simp
      qed
    next
      case nonleaf: False
      have w: "?w = valw ?c OR ptr (off_of es (p @ [?r]))" using cell nonleaf by simp
      have "off_of es (p @ [?r]) < total es" by (rule hdr_lt_total[OF d centry nonleaf])
      then have ob: "off_of es (p @ [?r]) < 2 ^ 23" using t bound by simp
      have "lookup_loop out ?off (char # rest) = lookup_loop out (off_of es (p @ [?r])) rest"
        using f w valw_ptr_flag[of ?c] valw_ptr_off[OF ob, of ?c] by simp
      also have "\<dots> = Inr (lookup ?c rest)"
        by (rule Cons.IH[OF centry nonleaf wf_child[OF Cons(4) cin] cok(1)])
      finally show ?thesis using lk by simp
    qed
  qed
qed

lemma serialize_total: "\<exists>out. serialize root = Inr out"
  using serialize_layout[of root] by blast

lemma serialize_Lookup:
  assumes ser: "serialize root = Inr out" and nl: "node_children root \<noteq> []"
    and wf: "wf_trie root" and ok: "idx_ok (2 ^ 23) root" and bound: "length out \<le> 2 ^ 23"
    and key: "key \<noteq> []"
  shows "Lookup out key = Inr (lookup root key)"
proof -
  obtain out' es where s: "serialize root = Inr out'" "layout es out'" "([], root) \<in> set es"
    "off_of es [] = 0" using serialize_layout[of root] by blast
  have e: "out' = out" using ser s(1) by simp
  have "lookup_loop out (off_of es []) key = Inr (lookup root key)"
    using lookup_layout[OF s(2)[unfolded e] bound s(3) nl wf ok] .
  then show ?thesis using key s(4) by (simp add: Lookup_def)
qed



section \<open>The serialized trie against the pointer trie\<close>

lemmas trie_eval = BuildTrie_def newTrieNode_def sort_Search_def search_loop.simps insert_trie.simps
  Let_def serialize_def measure_fn_def emit_def wr_def Lookup_def TrieLookup_def find_child_def
  rd_def bsearch.simps

text \<open>
  C10, as stated: for every list of tokens and every non-empty key, \<^verbatim>\<open>Lookup\<close> on the
  serialized trie returns what \<^verbatim>\<open>lookup\<close> returns on the pointer trie. For the empty token
  list the root has no children, \<^verbatim>\<open>serialize\<close> returns an empty slice, and \<^verbatim>\<open>Lookup\<close>
  panics on \<^verbatim>\<open>trie[0]\<close> where \<^verbatim>\<open>lookup\<close> returns -1.
\<close>

theorem serialize_refinement_empty_trie:
  "serialize (BuildTrie []) = Inr [] \<and>
   Lookup [] [0x61] = Inl IndexOutOfRange \<and>
   lookup (BuildTrie []) [0x61] = -1 \<and>
   Lookup [] [0x61] \<noteq> Inr (lookup (BuildTrie []) [0x61])"
  by (simp add: trie_eval)

text \<open>
  C10, amended: for every list of at most \<open>2^23\<close> tokens of which one is not empty,
  \<^verbatim>\<open>serialize(BuildTrie(tokens))\<close> returns a slice, and if that slice has at most \<open>2^23\<close>
  words then for every non-empty key \<^verbatim>\<open>Lookup\<close> on it returns, without a panic, the value
  of \<^verbatim>\<open>lookup\<close> on \<^verbatim>\<open>BuildTrie(tokens)\<close>.
\<close>

theorem serialize_refines_lookup:
  assumes "\<exists>tok\<in>set tokens. tok \<noteq> []" and "length tokens \<le> 2 ^ 23" and "key \<noteq> []"
  shows "\<exists>trie. serialize (BuildTrie tokens) = Inr trie \<and>
           (length trie \<le> 2 ^ 23 \<longrightarrow> Lookup trie key = Inr (lookup (BuildTrie tokens) key))"
proof -
  have "int (length tokens) \<le> 2 ^ 23"
    using assms(2) by (simp add: of_nat_le_iff[of _ "2 ^ 23", simplified])
  note p = BuildTrie_props[OF this]
  obtain trie where t: "serialize (BuildTrie tokens) = Inr trie" using serialize_total by blast
  have nl: "node_children (BuildTrie tokens) \<noteq> []" using p assms(1) by blast
  have "length trie \<le> 2 ^ 23 \<Longrightarrow> Lookup trie key = Inr (lookup (BuildTrie tokens) key)"
    using serialize_Lookup[OF t nl _ _ _ assms(3)] p by blast
  then show ?thesis using t by blast
qed

theorem serialize_refines_lookup_witness:
  "serialize (BuildTrie [[0x61], [0x61, 0x62]]) = Inr [1, 0x461, 0x101, 0x362] \<and>
   Lookup [1, 0x461, 0x101, 0x362] [0x61, 0x62] = Inr (lookup (BuildTrie [[0x61], [0x61, 0x62]]) [0x61, 0x62]) \<and>
   lookup (BuildTrie [[0x61], [0x61, 0x62]]) [0x61, 0x62] = 1"
proof -
  have s: "serialize (BuildTrie [[0x61], [0x61, 0x62]]) = Inr [1, 0x461, 0x101, 0x362]"
    by (simp add: trie_eval)
  have l: "lookup (BuildTrie [[0x61], [0x61, 0x62]]) [0x61, 0x62] = 1"
    by (simp add: trie_eval)
  show ?thesis
    using serialize_refines_lookup[of "[[0x61], [0x61, 0x62]]" "[0x61, 0x62]"] s l by simp
qed



end
